theory Spec2Isabelle
  imports Complex_Main
begin

section \<open>Active ADP learning agent (agents.py)\<close>

text \<open>
  A shallow embedding of \<^verbatim>\<open>agents.py\<close>: the estimation routines
  \<^verbatim>\<open>_getEstimates\<close> and \<^verbatim>\<open>_getEstimatesOptimistic\<close>, the step size
  \<^verbatim>\<open>_alpha\<close>, the three episode runners and the class \<^verbatim>\<open>Agent\<close>.

  Conventions of the embedding.
  \<^item> A Python \<^verbatim>\<open>dict\<close> is an association list with distinct keys; a new key is
    appended at the end, a stored key keeps its place. The order of the list stands for
    the order in which the dictionary is iterated.
  \<^item> Python integers are \<open>int\<close>; Python floats are idealised as \<open>real\<close>, except
    where rounding decides whether an operation raises (see \<open>explore_A\<close>).
  \<^item> An exception is a value \<open>Inl e\<close> of the result type \<open>error + 'a\<close>.
  \<^item> The calls of \<^verbatim>\<open>random.random\<close> and \<^verbatim>\<open>random.choice\<close> and the
    chance inside the environment read an explicit \<open>draw\<close>, one per iteration.
  \<^item> A leading underscore of a Python name is dropped (\<^verbatim>\<open>_alpha\<close> is \<open>alpha\<close>).
\<close>

subsection \<open>Exceptions\<close>

datatype error = ValueError | ZeroDivisionError | IndexError

definition bind_err :: "error + 'x \<Rightarrow> ('x \<Rightarrow> error + 'y) \<Rightarrow> error + 'y" where
  "bind_err m f = (case m of Inl e \<Rightarrow> Inl e | Inr x \<Rightarrow> f x)"

text \<open>Evaluating a generator expression: the first raising element ends the evaluation.\<close>

fun collect :: "('x \<Rightarrow> error + 'y) \<Rightarrow> 'x list \<Rightarrow> error + 'y list" where
  "collect f [] = Inr []"
| "collect f (x # xs) =
     bind_err (f x) (\<lambda>y. bind_err (collect f xs) (\<lambda>ys. Inr (y # ys)))"

subsection \<open>Dictionaries\<close>

type_synonym ('k, 'v) dict = "('k \<times> 'v) list"

text \<open>\<^verbatim>\<open>d.get(k, default)\<close>\<close>

definition dict_get :: "('k, 'v) dict \<Rightarrow> 'k \<Rightarrow> 'v \<Rightarrow> 'v" where
  "dict_get d k dflt = (case map_of d k of None \<Rightarrow> dflt | Some v \<Rightarrow> v)"

text \<open>\<^verbatim>\<open>d[k] = v\<close>\<close>

fun dict_set :: "('k, 'v) dict \<Rightarrow> 'k \<Rightarrow> 'v \<Rightarrow> ('k, 'v) dict" where
  "dict_set [] k v = [(k, v)]"
| "dict_set ((k', v') # d) k v =
     (if k' = k then (k, v) # d else (k', v') # dict_set d k v)"

text \<open>\<^verbatim>\<open>d.setdefault(k, 0); d[k] += 1\<close>\<close>

definition dict_incr :: "('k, int) dict \<Rightarrow> 'k \<Rightarrow> ('k, int) dict" where
  "dict_incr d k = dict_set d k (dict_get d k 0 + 1)"

type_synonym ('s, 'a) transs = "('s, ('a, ('s, int) dict) dict) dict"
type_synonym 's utils = "('s, real) dict"
type_synonym 's freqs = "('s, int) dict"

text \<open>
  \<^verbatim>\<open>transs.setdefault(state, {}).setdefault(bestAction, {}).setdefault(newState, 0)\<close>
  followed by \<^verbatim>\<open>transs[state][bestAction][newState] += 1\<close>.
\<close>

definition transs_incr :: "('s, 'a) transs \<Rightarrow> 's \<Rightarrow> 'a \<Rightarrow> 's \<Rightarrow> ('s, 'a) transs" where
  "transs_incr transs state bestAction newState =
     (let byAction = dict_get transs state [];
          bySucc = dict_get byAction bestAction []
      in dict_set transs state (dict_set byAction bestAction (dict_incr bySucc newState)))"

subsection \<open>The step size\<close>

text \<open>\<^verbatim>\<open>return 50. / (49 + n)\<close>: the division raises when \<open>49 + n\<close> is zero.\<close>

definition alpha :: "int \<Rightarrow> error + real" where
  "alpha n = (if 49 + n = 0 then Inl ZeroDivisionError else Inr (50 / real_of_int (49 + n)))"

subsection \<open>The estimation routines\<close>

text \<open>
  \<^verbatim>\<open>currActions or transs.get(currState, {})\<close>: \<^verbatim>\<open>None\<close> and the empty list are
  both false, and then the actions recorded for the state are iterated.
\<close>

definition candidates :: "('s, 'a) transs \<Rightarrow> 's \<Rightarrow> 'a list option \<Rightarrow> 'a list" where
  "candidates transs currState currActions =
     (case currActions of
        None \<Rightarrow> map fst (dict_get transs currState [])
      | Some [] \<Rightarrow> map fst (dict_get transs currState [])
      | Some (a # as) \<Rightarrow> a # as)"

text \<open>\<^verbatim>\<open>freq = transs.get(currState, {}).get(ac, {})\<close>\<close>

definition freq_of :: "('s, 'a) transs \<Rightarrow> 's \<Rightarrow> 'a \<Rightarrow> ('s, int) dict" where
  "freq_of transs currState ac = dict_get (dict_get transs currState []) ac []"

text \<open>\<^verbatim>\<open>n = sum(val for val in freq.values())\<close>\<close>

definition count_of :: "('s, int) dict \<Rightarrow> int" where
  "count_of freq = sum_list (map snd freq)"

text \<open>
  \<^verbatim>\<open>probs = dict((key, float(val) / n) for key, val in freq.iteritems())\<close>: one
  division per entry of \<open>freq\<close>, each raising when \<open>n\<close> is zero; no entry, no division.
\<close>

definition probs_of :: "('s, int) dict \<Rightarrow> error + ('s, real) dict" where
  "probs_of freq =
     (let n = count_of freq
      in collect (\<lambda>(key, val).
           if n = 0 then Inl ZeroDivisionError
           else Inr (key, real_of_int val / real_of_int n)) freq)"

text \<open>\<^verbatim>\<open>sum(p * utils.get(s, 0) for s, p in probs.iteritems())\<close>\<close>

definition expected :: "'s utils \<Rightarrow> ('s, real) dict \<Rightarrow> real" where
  "expected utils probs = sum_list (map (\<lambda>(s, p). p * dict_get utils s 0) probs)"

definition getEstimates ::
  "('s, 'a) transs \<Rightarrow> 's utils \<Rightarrow> 's \<Rightarrow> 'a list option \<Rightarrow> error + (real \<times> 'a) list" where
  "getEstimates transs utils currState currActions =
     collect (\<lambda>ac.
        let freq = freq_of transs currState ac
        in bind_err (probs_of freq) (\<lambda>probs. Inr (expected utils probs, ac)))
       (candidates transs currState currActions)"

definition getEstimatesOptimistic ::
  "('s, 'a) transs \<Rightarrow> 's utils \<Rightarrow> 's \<Rightarrow> real \<Rightarrow> int \<Rightarrow> 'a list option
     \<Rightarrow> error + (real \<times> 'a) list" where
  "getEstimatesOptimistic transs utils currState R_plus N_e currActions =
     collect (\<lambda>ac.
        let freq = freq_of transs currState ac;
            n = count_of freq
        in bind_err (probs_of freq) (\<lambda>probs.
             let u = expected utils probs
             in if n < N_e then Inr (R_plus, ac) else Inr (u, ac)))
       (candidates transs currState currActions)"

subsection \<open>The maximum of a list of pairs\<close>

text \<open>
  Python compares tuples item by item: the first items that differ decide. The builtin
  \<^verbatim>\<open>max\<close> keeps the first of the greatest elements and raises \<^verbatim>\<open>ValueError\<close> on
  an empty sequence.
\<close>

definition tuple_less :: "real \<times> ('a::linorder) \<Rightarrow> real \<times> 'a \<Rightarrow> bool" where
  "tuple_less p q = (fst p < fst q \<or> (fst p = fst q \<and> snd p < snd q))"

fun max_from :: "real \<times> ('a::linorder) \<Rightarrow> (real \<times> 'a) list \<Rightarrow> real \<times> 'a" where
  "max_from best [] = best"
| "max_from best (x # xs) = max_from (if tuple_less best x then x else best) xs"

definition py_max :: "(real \<times> ('a::linorder)) list \<Rightarrow> error + real \<times> 'a" where
  "py_max xs = (case xs of [] \<Rightarrow> Inl ValueError | x # rest \<Rightarrow> Inr (max_from x rest))"

subsection \<open>Environment, options and chance\<close>

text \<open>
  The environment is an external collaborator; the agent uses three operations of it.
  \<^verbatim>\<open>do\<close> may be stochastic: its first argument is the chance it reads.
\<close>

record ('s, 'a) environment =
  env_getStartingState :: "'s"
  env_getActions :: "'s \<Rightarrow> 'a list"
  env_do :: "nat \<Rightarrow> 's \<Rightarrow> 'a \<Rightarrow> 's \<times> real \<times> bool"

text \<open>
  What one iteration reads from the random generator: the value of
  \<^verbatim>\<open>random.random()\<close>, the index behind \<^verbatim>\<open>random.choice\<close> and the chance of
  the environment.
\<close>

record draw =
  rnd_random :: real
  rnd_choice :: nat
  rnd_nature :: nat

text \<open>\<^verbatim>\<open>random.choice(seq)\<close> raises \<^verbatim>\<open>IndexError\<close> on an empty sequence.\<close>

definition random_choice :: "nat \<Rightarrow> 'a list \<Rightarrow> error + 'a" where
  "random_choice k xs = (if xs = [] then Inl IndexError else Inr (xs ! (k mod length xs)))"

text \<open>The keyword arguments \<^verbatim>\<open>**kwargs\<close>: \<open>None\<close> is a keyword that was not passed.\<close>

record kwargs =
  kw_t :: "real option"
  kw_tStep :: "real option"
  kw_alpha :: "(int \<Rightarrow> error + real) option"
  kw_maxItr :: "int option"
  kw_R_plus :: "real option"
  kw_N_e :: "int option"

text \<open>\<^verbatim>\<open>kwargs.get(name, default)\<close>\<close>

definition kw_get :: "'v option \<Rightarrow> 'v \<Rightarrow> 'v" where
  "kw_get v dflt = (case v of None \<Rightarrow> dflt | Some x \<Rightarrow> x)"

definition no_kwargs :: kwargs where
  "no_kwargs = \<lparr>kw_t = None, kw_tStep = None, kw_alpha = None, kw_maxItr = None,
     kw_R_plus = None, kw_N_e = None\<rparr>"

subsection \<open>The episode loop\<close>

text \<open>The local variables of a strategy function that live across iterations.\<close>

record ('s, 'a) episode =
  ep_transs :: "('s, 'a) transs"
  ep_utils :: "'s utils"
  ep_freqs :: "'s freqs"
  ep_state :: "'s"
  ep_reward :: real
  ep_actions :: "'a list"
  ep_rewardEstimate :: "real option"
  ep_bestAction :: "'a option"
  ep_isTerminal :: bool
  ep_t :: real

text \<open>\<^verbatim>\<open>rewardEstimate, bestAction = max(estimates)\<close>\<close>

definition best_of :: "error + (real \<times> ('a::linorder)) list \<Rightarrow> error + real \<times> 'a" where
  "best_of estimates = bind_err estimates py_max"

text \<open>
  The part of the loop body that the three strategies share, from \<^verbatim>\<open>env.do\<close> to
  \<^verbatim>\<open>reward = new_reward\<close>; they differ in the estimation routine \<open>est\<close> only. The
  utility update calls the module's \<^verbatim>\<open>_alpha\<close>.
\<close>

definition observe_update ::
  "(('s, 'a) transs \<Rightarrow> 's utils \<Rightarrow> 's \<Rightarrow> 'a list option \<Rightarrow> error + (real \<times> 'a) list)
     \<Rightarrow> ('s, 'a::linorder) environment \<Rightarrow> draw \<Rightarrow> ('s, 'a) episode \<Rightarrow> 'a
     \<Rightarrow> error + ('s, 'a) episode" where
  "observe_update est env d ep bestAction =
     (case env_do env (rnd_nature d) (ep_state ep) bestAction of
        (newState, new_reward, isTerminal) \<Rightarrow>
          let state = ep_state ep;
              freqs = dict_incr (ep_freqs ep) newState;
              transs = transs_incr (ep_transs ep) state bestAction newState;
              actions = env_getActions env state
          in bind_err (best_of (est transs (ep_utils ep) state (Some actions)))
               (\<lambda>(rewardEstimate, bestAction1).
                 bind_err (alpha (dict_get freqs state 0))
                   (\<lambda>stepSize.
                     let utils = dict_set (ep_utils ep) state
                                   (ep_reward ep + stepSize * rewardEstimate);
                         new_actions = env_getActions env newState
                     in bind_err (best_of (est transs utils newState (Some new_actions)))
                          (\<lambda>(rewardEstimate2, bestAction2).
                            Inr (ep\<lparr>ep_transs := transs, ep_utils := utils,
                                     ep_freqs := freqs, ep_state := newState,
                                     ep_reward := new_reward, ep_actions := new_actions,
                                     ep_rewardEstimate := Some rewardEstimate2,
                                     ep_bestAction := Some bestAction2,
                                     ep_isTerminal := isTerminal\<rparr>)))))"

text \<open>
  \<^verbatim>\<open>while not isTerminal: body; itr += 1; if itr >= maxItr: break\<close>. The flag is
  false when the loop is entered, so the body runs at least once.
\<close>

function run_loop ::
  "(nat \<Rightarrow> 'st \<Rightarrow> error + 'st) \<Rightarrow> ('st \<Rightarrow> bool) \<Rightarrow> int \<Rightarrow> int \<Rightarrow> 'st \<Rightarrow> error + int \<times> 'st" where
  "run_loop body isTerminal maxItr itr st =
     (case body (nat itr) st of
        Inl e \<Rightarrow> Inl e
      | Inr st' \<Rightarrow>
          if itr + 1 \<ge> maxItr \<or> isTerminal st' then Inr (itr + 1, st')
          else run_loop body isTerminal maxItr (itr + 1) st')"
  by pat_completeness auto
termination
  by (relation "measure (\<lambda>(body, isTerminal, maxItr, itr, st). nat (maxItr - itr))") auto

declare run_loop.simps [simp del]

text \<open>The initial estimate of strategies A and C: \<^verbatim>\<open>if len(utils) > 0: ...\<close>\<close>

definition initial_best ::
  "'s utils \<Rightarrow> error + (real \<times> ('a::linorder)) list \<Rightarrow> error + real option \<times> 'a option" where
  "initial_best utils estimates =
     (if length utils > 0
      then bind_err (best_of estimates) (\<lambda>(rewardEstimate, bestAction).
             Inr (Some rewardEstimate, Some bestAction))
      else Inr (None, None))"

text \<open>What a strategy function returns and leaves in the tables it was given.\<close>

type_synonym ('s, 'a) outcome = "int \<times> ('s, 'a) transs \<times> 's utils \<times> 's freqs"

definition finish :: "int \<times> ('s, 'a) episode \<Rightarrow> error + ('s, 'a) outcome" where
  "finish r = (case r of (itr, ep) \<Rightarrow> Inr (itr, ep_transs ep, ep_utils ep, ep_freqs ep))"

subsection \<open>Strategy A: \<^verbatim>\<open>adp_random_exploration\<close>\<close>

text \<open>
  \<^verbatim>\<open>if random.random() < 1. / log(t+1) or bestAction is None\<close>: the logarithm raises
  \<^verbatim>\<open>ValueError\<close> outside its domain and the division raises when the logarithm is zero.
  The sum \<^verbatim>\<open>t+1\<close> is a double: rounded to nearest, ties to even, it is \<open>1.0\<close> for
  every \<open>t\<close> from \<open>-2^-54\<close> to \<open>2^-53\<close>, and then the logarithm is \<open>0.0\<close>. For any
  other \<open>t\<close> above \<open>-1\<close> the sum is a double other than \<open>1.0\<close> and its logarithm is
  not zero.
\<close>

definition explore_A :: "real \<Rightarrow> real \<Rightarrow> 'a option \<Rightarrow> error + bool" where
  "explore_A r t bestAction =
     (if t + 1 \<le> 0 then Inl ValueError
      else if - (1 / 2 ^ 54) \<le> t \<and> t \<le> 1 / 2 ^ 53 then Inl ZeroDivisionError
      else Inr (r < 1 / ln (t + 1) \<or> bestAction = None))"

definition choose_action :: "bool \<Rightarrow> nat \<Rightarrow> 'a list \<Rightarrow> 'a option \<Rightarrow> error + 'a" where
  "choose_action explore k actions bestAction =
     (case bestAction of
        None \<Rightarrow> random_choice k actions
      | Some b \<Rightarrow> if explore then random_choice k actions else Inr b)"

definition body_A ::
  "('s, 'a::linorder) environment \<Rightarrow> real \<Rightarrow> draw \<Rightarrow> ('s, 'a) episode \<Rightarrow> error + ('s, 'a) episode" where
  "body_A env tStep d ep =
     bind_err (explore_A (rnd_random d) (ep_t ep) (ep_bestAction ep)) (\<lambda>explore.
     bind_err (choose_action explore (rnd_choice d) (ep_actions ep) (ep_bestAction ep)) (\<lambda>bestAction.
     bind_err (observe_update getEstimates env d ep bestAction) (\<lambda>ep'.
       Inr (ep'\<lparr>ep_t := ep_t ep + tStep\<rparr>))))"

definition adp_random_exploration ::
  "('s, 'a::linorder) environment \<Rightarrow> ('s, 'a) transs \<Rightarrow> 's utils \<Rightarrow> 's freqs \<Rightarrow> kwargs
     \<Rightarrow> (nat \<Rightarrow> draw) \<Rightarrow> error + ('s, 'a) outcome" where
  "adp_random_exploration env transs utils freqs kwargs rnd =
     (let t = kw_get (kw_t kwargs) 1;
          tStep = kw_get (kw_tStep kwargs) (4 / 5);
          alpha' = kw_get (kw_alpha kwargs) alpha;
          maxItr = kw_get (kw_maxItr kwargs) 50;
          state = env_getStartingState env;
          reward = 0;
          actions = env_getActions env state
      in bind_err (initial_best utils (getEstimates transs utils state (Some actions)))
           (\<lambda>(rewardEstimate, bestAction).
             bind_err
               (run_loop (\<lambda>i. body_A env tStep (rnd i)) ep_isTerminal maxItr 0
                  \<lparr>ep_transs = transs, ep_utils = utils, ep_freqs = freqs,
                   ep_state = state, ep_reward = reward, ep_actions = actions,
                   ep_rewardEstimate = rewardEstimate, ep_bestAction = bestAction,
                   ep_isTerminal = False, ep_t = t\<rparr>)
               finish))"

subsection \<open>Strategy B: \<^verbatim>\<open>adp_random_exploration_state\<close>\<close>

text \<open>
  \<^verbatim>\<open>t = float(len(freqs)) or 1.\<close> and
  \<^verbatim>\<open>random.random() < 1. / (t+1) or bestAction is None\<close>
\<close>

definition explore_B :: "real \<Rightarrow> 's freqs \<Rightarrow> 'a option \<Rightarrow> bool" where
  "explore_B r freqs bestAction =
     (let t = (if real (length freqs) = 0 then 1 else real (length freqs))
      in r < 1 / (t + 1) \<or> bestAction = None)"

definition body_B ::
  "('s, 'a::linorder) environment \<Rightarrow> draw \<Rightarrow> ('s, 'a) episode \<Rightarrow> error + ('s, 'a) episode" where
  "body_B env d ep =
     bind_err (choose_action (explore_B (rnd_random d) (ep_freqs ep) (ep_bestAction ep))
                 (rnd_choice d) (ep_actions ep) (ep_bestAction ep)) (\<lambda>bestAction.
       observe_update getEstimates env d ep bestAction)"

definition adp_random_exploration_state ::
  "('s, 'a::linorder) environment \<Rightarrow> ('s, 'a) transs \<Rightarrow> 's utils \<Rightarrow> 's freqs \<Rightarrow> kwargs
     \<Rightarrow> (nat \<Rightarrow> draw) \<Rightarrow> error + ('s, 'a) outcome" where
  "adp_random_exploration_state env transs utils freqs kwargs rnd =
     (let alpha' = kw_get (kw_alpha kwargs) alpha;
          maxItr = kw_get (kw_maxItr kwargs) 50;
          state = env_getStartingState env;
          reward = 0;
          actions = env_getActions env state
      in bind_err
           (run_loop (\<lambda>i. body_B env (rnd i)) ep_isTerminal maxItr 0
              \<lparr>ep_transs = transs, ep_utils = utils, ep_freqs = freqs,
               ep_state = state, ep_reward = reward, ep_actions = actions,
               ep_rewardEstimate = None, ep_bestAction = None,
               ep_isTerminal = False, ep_t = 0\<rparr>)
           finish)"

subsection \<open>Strategy C: \<^verbatim>\<open>adp_optimistic_rewards\<close>\<close>

definition body_C ::
  "('s, 'a::linorder) environment \<Rightarrow> real \<Rightarrow> int \<Rightarrow> draw \<Rightarrow> ('s, 'a) episode
     \<Rightarrow> error + ('s, 'a) episode" where
  "body_C env R_plus N_e d ep =
     bind_err (choose_action False (rnd_choice d) (ep_actions ep) (ep_bestAction ep)) (\<lambda>bestAction.
       observe_update (\<lambda>transs utils currState. getEstimatesOptimistic transs utils currState R_plus N_e)
         env d ep bestAction)"

definition adp_optimistic_rewards ::
  "('s, 'a::linorder) environment \<Rightarrow> ('s, 'a) transs \<Rightarrow> 's utils \<Rightarrow> 's freqs \<Rightarrow> kwargs
     \<Rightarrow> (nat \<Rightarrow> draw) \<Rightarrow> error + ('s, 'a) outcome" where
  "adp_optimistic_rewards env transs utils freqs kwargs rnd =
     (let R_plus = kw_get (kw_R_plus kwargs) 5;
          N_e = kw_get (kw_N_e kwargs) 12;
          alpha' = kw_get (kw_alpha kwargs) alpha;
          maxItr = kw_get (kw_maxItr kwargs) 10;
          state = env_getStartingState env;
          reward = 0;
          actions = env_getActions env state
      in bind_err (initial_best utils
                     (getEstimatesOptimistic transs utils state R_plus N_e (Some actions)))
           (\<lambda>(rewardEstimate, bestAction).
             bind_err
               (run_loop (\<lambda>i. body_C env R_plus N_e (rnd i)) ep_isTerminal maxItr 0
                  \<lparr>ep_transs = transs, ep_utils = utils, ep_freqs = freqs,
                   ep_state = state, ep_reward = reward, ep_actions = actions,
                   ep_rewardEstimate = rewardEstimate, ep_bestAction = bestAction,
                   ep_isTerminal = False, ep_t = 0\<rparr>)
               finish))"

subsection \<open>Calls that pass no tables\<close>

text \<open>
  \<^verbatim>\<open>def adp_random_exploration(env, transs={}, utils={}, freqs={}, **kwargs)\<close>:
  Python evaluates a default value once, when the \<^verbatim>\<open>def\<close> statement is executed,
  and every call that omits the argument receives that same object. The three
  dictionaries of a strategy function are therefore a store of their own, empty when the
  module is loaded; a call without tables reads them and leaves them as the episode
  mutated them.
\<close>

record ('s, 'a) defaults =
  dflt_transs :: "('s, 'a) transs"
  dflt_utils :: "'s utils"
  dflt_freqs :: "'s freqs"

definition module_loaded :: "('s, 'a) defaults" where
  "module_loaded = \<lparr>dflt_transs = [], dflt_utils = [], dflt_freqs = []\<rparr>"

definition bare_call ::
  "(('s, 'a) environment \<Rightarrow> ('s, 'a) transs \<Rightarrow> 's utils \<Rightarrow> 's freqs \<Rightarrow> kwargs
      \<Rightarrow> (nat \<Rightarrow> draw) \<Rightarrow> error + ('s, 'a) outcome)
     \<Rightarrow> ('s, 'a) environment \<Rightarrow> kwargs \<Rightarrow> (nat \<Rightarrow> draw) \<Rightarrow> ('s, 'a) defaults
     \<Rightarrow> error + int \<times> ('s, 'a) defaults" where
  "bare_call alg env kwargs rnd dflt =
     bind_err (alg env (dflt_transs dflt) (dflt_utils dflt) (dflt_freqs dflt) kwargs rnd)
       (\<lambda>(itr, transs, utils, freqs).
         Inr (itr, \<lparr>dflt_transs = transs, dflt_utils = utils, dflt_freqs = freqs\<rparr>))"

subsection \<open>The class \<^verbatim>\<open>Agent\<close>\<close>

record ('s, 'a) agent =
  nTable :: "'s freqs"
  transTable :: "('s, 'a) transs"
  uTable :: "'s utils"
  results :: "real list"

definition clearExperience :: "('s, 'a) agent \<Rightarrow> ('s, 'a) agent" where
  "clearExperience self = self\<lparr>nTable := [], transTable := [], uTable := [], results := []\<rparr>"

text \<open>
  \<^verbatim>\<open>for state in self.transTable: policy[state] = max(_getEstimates(...))[1]\<close>
\<close>

fun getPolicy_loop ::
  "('s, 'a::linorder) transs \<Rightarrow> 's utils \<Rightarrow> 's list \<Rightarrow> ('s, 'a) dict \<Rightarrow> error + ('s, 'a) dict" where
  "getPolicy_loop transs utils [] policy = Inr policy"
| "getPolicy_loop transs utils (state # rest) policy =
     bind_err (best_of (getEstimates transs utils state None)) (\<lambda>best.
       getPolicy_loop transs utils rest (dict_set policy state (snd best)))"

definition getPolicy :: "('s, 'a::linorder) agent \<Rightarrow> error + ('s, 'a) dict" where
  "getPolicy self =
     getPolicy_loop (transTable self) (uTable self) (map fst (transTable self)) []"

text \<open>
  \<^verbatim>\<open>for trial in range(numOfTrials): itrs += alg(env, transs=self.transTable, ...)\<close>.
  The strategy mutates the tables of the agent in place. Trial \<open>k\<close> reads the chance
  \<open>rnd k\<close>.
\<close>

fun learn_trials ::
  "(('s, 'a) environment \<Rightarrow> ('s, 'a) transs \<Rightarrow> 's utils \<Rightarrow> 's freqs \<Rightarrow> kwargs
      \<Rightarrow> (nat \<Rightarrow> draw) \<Rightarrow> error + ('s, 'a) outcome)
     \<Rightarrow> ('s, 'a) environment \<Rightarrow> kwargs \<Rightarrow> (nat \<Rightarrow> nat \<Rightarrow> draw) \<Rightarrow> nat list
     \<Rightarrow> int \<Rightarrow> ('s, 'a) agent \<Rightarrow> error + int \<times> ('s, 'a) agent" where
  "learn_trials alg env kwargs rnd [] itrs self = Inr (itrs, self)"
| "learn_trials alg env kwargs rnd (trial # rest) itrs self =
     bind_err (alg env (transTable self) (uTable self) (nTable self) kwargs (rnd trial))
       (\<lambda>(n, transs, utils, freqs).
         learn_trials alg env kwargs rnd rest (itrs + n)
           (self\<lparr>transTable := transs, uTable := utils, nTable := freqs\<rparr>))"

definition learn ::
  "('s, 'a::linorder) agent \<Rightarrow> ('s, 'a) environment
     \<Rightarrow> (('s, 'a) environment \<Rightarrow> ('s, 'a) transs \<Rightarrow> 's utils \<Rightarrow> 's freqs \<Rightarrow> kwargs
           \<Rightarrow> (nat \<Rightarrow> draw) \<Rightarrow> error + ('s, 'a) outcome)
     \<Rightarrow> nat \<Rightarrow> kwargs \<Rightarrow> (nat \<Rightarrow> nat \<Rightarrow> draw) \<Rightarrow> error + ('s, 'a) dict \<times> ('s, 'a) agent" where
  "learn self env alg numOfTrials kwargs rnd =
     bind_err (learn_trials alg env kwargs rnd [0..<numOfTrials] 0 (clearExperience self))
       (\<lambda>(itrs, self'). bind_err (getPolicy self') (\<lambda>policy. Inr (policy, self')))"

text \<open>
  \<^verbatim>\<open>Agent.solve\<close>. The loop has no iteration cap, so it need not return: \<open>None\<close> is
  a run that never leaves the loop. \<^verbatim>\<open>policy.get(state)\<close> is the action of the
  policy or \<^verbatim>\<open>None\<close>, and then \<^verbatim>\<open>random.choice(env.getActions(state))\<close> is taken.
\<close>

definition solve_action ::
  "('s, 'a) environment \<Rightarrow> ('s, 'a) dict \<Rightarrow> draw \<Rightarrow> 's \<Rightarrow> error + 'a" where
  "solve_action env policy d state =
     (case map_of policy state of
        None \<Rightarrow> random_choice (rnd_choice d) (env_getActions env state)
      | Some act \<Rightarrow> Inr act)"

partial_function (option) solve_loop ::
  "('s, 'a) environment \<Rightarrow> ('s, 'a) dict \<Rightarrow> (nat \<Rightarrow> draw) \<Rightarrow> nat \<Rightarrow> 's \<Rightarrow> 'a list \<Rightarrow> real
     \<Rightarrow> (error + 'a list \<times> real) option" where
  "solve_loop env policy rnd i state actions energy =
     (case solve_action env policy (rnd i) state of
        Inl e \<Rightarrow> Some (Inl e)
      | Inr act \<Rightarrow>
          (case env_do env (rnd_nature (rnd i)) state act of
             (state', reward, isTerminalState) \<Rightarrow>
               if energy + reward < - 1000 \<or> isTerminalState
               then Some (Inr (actions @ [act], energy + reward))
               else solve_loop env policy rnd (Suc i) state' (actions @ [act])
                      (energy + reward)))"

definition solve ::
  "('s, 'a) environment \<Rightarrow> ('s, 'a) dict \<Rightarrow> (nat \<Rightarrow> draw) \<Rightarrow> (error + 'a list \<times> real) option" where
  "solve env policy rnd = solve_loop env policy rnd 0 (env_getStartingState env) [] 0"

section \<open>Notions used to state the properties\<close>

text \<open>
  The data model's invariant on the transition model: a successor count that is stored
  is at least one. The strategies keep it, since they store a count by incrementing it.
\<close>

definition positive_counts :: "('s, 'a) transs \<Rightarrow> bool" where
  "positive_counts transs =
     (\<forall>(s, byAction) \<in> set transs. \<forall>(a, bySucc) \<in> set byAction. \<forall>(s', c) \<in> set bySucc. 1 \<le> c)"

text \<open>
  The plain expected utility of an action as the specification words it: the sum over
  the recorded successors of probability times utility, the probability being the count
  divided by the total count.
\<close>

definition spec_expected_utility :: "('s, 'a) transs \<Rightarrow> 's utils \<Rightarrow> 's \<Rightarrow> 'a \<Rightarrow> real" where
  "spec_expected_utility transs utils s ac =
     (let freq = freq_of transs s ac; n = count_of freq
      in \<Sum>(s', c) \<leftarrow> freq. (real_of_int c / real_of_int n) * dict_get utils s' 0)"

text \<open>
  One table of counts is below another: every state recorded in the first is recorded
  in the second, with a count that is not smaller.
\<close>

definition counts_le :: "'s freqs \<Rightarrow> 's freqs \<Rightarrow> bool" where
  "counts_le freqs freqs' =
     (\<forall>s c. map_of freqs s = Some c \<longrightarrow> (\<exists>c'. map_of freqs' s = Some c' \<and> c \<le> c'))"

text \<open>
  One step of an episode as the specification words it, from the tables before and
  after: the count of the entered state went up by one and no other count changed; the
  utility of the state that was left is the reward carried from the previous step plus
  the step size at its count times the best estimate, computed from the updated model
  and the utilities before the step; the reward just received is carried on.
\<close>

definition step_as_specified ::
  "(('s, 'a) transs \<Rightarrow> 's utils \<Rightarrow> 's \<Rightarrow> 'a list option \<Rightarrow> error + (real \<times> 'a) list)
     \<Rightarrow> ('s, 'a::linorder) environment \<Rightarrow> draw \<Rightarrow> ('s, 'a) episode \<Rightarrow> 'a \<Rightarrow> ('s, 'a) episode
     \<Rightarrow> bool" where
  "step_as_specified est env d ep act ep' =
     (case env_do env (rnd_nature d) (ep_state ep) act of
        (newState, new_reward, isTerminal) \<Rightarrow>
          map_of (ep_freqs ep') newState = Some (dict_get (ep_freqs ep) newState 0 + 1)
        \<and> (\<forall>s. s \<noteq> newState \<longrightarrow> map_of (ep_freqs ep') s = map_of (ep_freqs ep) s)
        \<and> (\<exists>bestEstimate b stepSize.
              best_of (est (ep_transs ep') (ep_utils ep) (ep_state ep)
                         (Some (env_getActions env (ep_state ep)))) = Inr (bestEstimate, b)
            \<and> alpha (dict_get (ep_freqs ep') (ep_state ep) 0) = Inr stepSize
            \<and> map_of (ep_utils ep') (ep_state ep)
                = Some (ep_reward ep + stepSize * bestEstimate))
        \<and> (\<forall>s. s \<noteq> ep_state ep \<longrightarrow> map_of (ep_utils ep') s = map_of (ep_utils ep) s)
        \<and> ep_state ep' = newState
        \<and> ep_reward ep' = new_reward)"

definition first_reward_zero ::
  "(nat \<Rightarrow> ('s, 'a) episode \<Rightarrow> error + ('s, 'a) episode) \<Rightarrow> int \<Rightarrow> ('s, 'a) environment
     \<Rightarrow> ('s, 'a) transs \<Rightarrow> 's utils \<Rightarrow> 's freqs \<Rightarrow> error + ('s, 'a) outcome \<Rightarrow> bool" where
  "first_reward_zero body maxItr env transs utils freqs result =
     (\<exists>ep0. ep_reward ep0 = 0 \<and> ep_state ep0 = env_getStartingState env
        \<and> ep_transs ep0 = transs \<and> ep_utils ep0 = utils \<and> ep_freqs ep0 = freqs
        \<and> result = bind_err (run_loop body ep_isTerminal maxItr 0 ep0) finish)"

text \<open>
  The states in which the loop of a strategy stands at the top of an iteration:
  \<open>loop_head body isTerminal maxItr st0 itr st\<close> holds when the loop entered with
  \<open>st0\<close> begins iteration number \<open>itr\<close> in state \<open>st\<close>.
\<close>

inductive loop_head ::
  "(nat \<Rightarrow> 'st \<Rightarrow> error + 'st) \<Rightarrow> ('st \<Rightarrow> bool) \<Rightarrow> int \<Rightarrow> 'st \<Rightarrow> int \<Rightarrow> 'st \<Rightarrow> bool"
  for body :: "nat \<Rightarrow> 'st \<Rightarrow> error + 'st" and isTerminal :: "'st \<Rightarrow> bool"
    and maxItr :: int and st0 :: 'st where
  first: "loop_head body isTerminal maxItr st0 0 st0"
| again: "loop_head body isTerminal maxItr st0 itr st \<Longrightarrow> body (nat itr) st = Inr st' \<Longrightarrow>
     \<not> (itr + 1 \<ge> maxItr \<or> isTerminal st') \<Longrightarrow>
     loop_head body isTerminal maxItr st0 (itr + 1) st'"

text \<open>
  The frequency table is a dictionary, and it has an entry once a best action has been
  computed.
\<close>

definition freqs_recorded :: "('s, 'a) episode \<Rightarrow> bool" where
  "freqs_recorded ep =
     (distinct (map fst (ep_freqs ep)) \<and> (ep_bestAction ep = None \<or> ep_freqs ep \<noteq> []))"

text \<open>
  What \<^verbatim>\<open>solve\<close> is specified to return, told from the environment: \<open>replay\<close>
  lists the reward and the termination flag that each action of a trace obtains when the
  trace is executed from state \<open>s\<close> at iteration \<open>i\<close>; \<open>follows\<close> says that every action
  of the trace is the one \<open>solve_action\<close> takes in the state it is executed in;
  \<open>stops\<close> says that after the observations the accumulated reward is below the
  threshold or the environment has signalled termination. \<open>solve_result\<close> puts them
  together: the trace follows the policy, the total is the accumulated reward, the loop
  stops after the trace and after no shorter one.
\<close>

fun replay ::
  "('s, 'a) environment \<Rightarrow> (nat \<Rightarrow> draw) \<Rightarrow> nat \<Rightarrow> 's \<Rightarrow> 'a list \<Rightarrow> (real \<times> bool) list" where
  "replay env rnd i s [] = []"
| "replay env rnd i s (a # as) =
     (case env_do env (rnd_nature (rnd i)) s a of
        (s', reward, isTerminalState) \<Rightarrow> (reward, isTerminalState) # replay env rnd (Suc i) s' as)"

fun follows ::
  "('s, 'a) environment \<Rightarrow> ('s, 'a) dict \<Rightarrow> (nat \<Rightarrow> draw) \<Rightarrow> nat \<Rightarrow> 's \<Rightarrow> 'a list \<Rightarrow> bool" where
  "follows env policy rnd i s [] = True"
| "follows env policy rnd i s (a # as) =
     (solve_action env policy (rnd i) s = Inr a
      \<and> follows env policy rnd (Suc i) (fst (env_do env (rnd_nature (rnd i)) s a)) as)"

definition stops :: "real \<Rightarrow> (real \<times> bool) list \<Rightarrow> bool" where
  "stops energy obs = (energy + sum_list (map fst obs) < - 1000 \<or> snd (last obs))"

definition solve_result ::
  "('s, 'a) environment \<Rightarrow> ('s, 'a) dict \<Rightarrow> (nat \<Rightarrow> draw) \<Rightarrow> nat \<Rightarrow> 's \<Rightarrow> real \<Rightarrow> 'a list \<Rightarrow> real
     \<Rightarrow> bool" where
  "solve_result env policy rnd i s energy acts tot =
     (acts \<noteq> []
      \<and> follows env policy rnd i s acts
      \<and> tot = energy + sum_list (map fst (replay env rnd i s acts))
      \<and> stops energy (replay env rnd i s acts)
      \<and> (\<forall>k. 0 < k \<and> k < length acts \<longrightarrow> \<not> stops energy (take k (replay env rnd i s acts))))"



text \<open>The actions held by an episode are those the environment offers in its state.\<close>

definition actions_current :: "('s, 'a) environment \<Rightarrow> ('s, 'a) episode \<Rightarrow> bool" where
  "actions_current env ep = (ep_actions ep = env_getActions env (ep_state ep))"

section \<open>Sample inputs\<close>

text \<open>A transition model with one observed pair: action 1 led from state 0 to state 5 twice.\<close>

definition sample_transs :: "(nat, nat) transs" where
  "sample_transs = [(0, [(1, [(5, 2)])])]"

definition sample_utils :: "nat utils" where
  "sample_utils = [(5, 3)]"

text \<open>
  An environment with one step: from any state the only action leads to the next state,
  pays 1 and ends the episode. Every state, the terminal one too, offers the action.
\<close>

definition chain_env :: "(nat, nat) environment" where
  "chain_env = \<lparr>env_getStartingState = 0, env_getActions = (\<lambda>s. [0]),
     env_do = (\<lambda>c s a. (Suc s, 1, True))\<rparr>"


definition fixed_draw :: "nat \<Rightarrow> draw" where
  "fixed_draw i = \<lparr>rnd_random = 0, rnd_choice = 0, rnd_nature = 0\<rparr>"

text \<open>A step size function a caller may pass as \<^verbatim>\<open>alpha\<close>: constantly 1.\<close>

definition unit_step :: "int \<Rightarrow> error + real" where
  "unit_step n = Inr 1"

text \<open>An episode in state 0 that carries the reward 3 from its previous step.\<close>

definition sample_episode :: "(nat, nat) episode" where
  "sample_episode = \<lparr>ep_transs = [], ep_utils = [(1, 7)], ep_freqs = [], ep_state = 0,
     ep_reward = 3, ep_actions = [0], ep_rewardEstimate = None, ep_bestAction = None,
     ep_isTerminal = False, ep_t = 1\<rparr>"

definition sample_agent :: "(nat, nat) agent" where
  "sample_agent = \<lparr>nTable = [(1, 4)], transTable = [], uTable = [], results = []\<rparr>"

text \<open>
  An environment that never ends the episode: the only action leads from a state to the
  next and pays 1.
\<close>

definition walk_env :: "(nat, nat) environment" where
  "walk_env = \<lparr>env_getStartingState = 0, env_getActions = (\<lambda>s. [0]),
     env_do = (\<lambda>c s a. (Suc s, 1, False))\<rparr>"

text \<open>An environment that pays \<open>-2000\<close> for every step and never ends the episode.\<close>

definition ruin_env :: "(nat, nat) environment" where
  "ruin_env = \<lparr>env_getStartingState = 0, env_getActions = (\<lambda>s. [0]),
     env_do = (\<lambda>c s a. (s, - 2000, False))\<rparr>"

text \<open>
  An environment with two actions in every state that never ends the episode, and the
  episode of strategy B on it at its second iteration: the best action is 1, while
  \<^verbatim>\<open>random.choice\<close> at index 0 takes action 0.
\<close>

definition fork_env :: "(nat, nat) environment" where
  "fork_env = \<lparr>env_getStartingState = 0, env_getActions = (\<lambda>s. [0, 1]),
     env_do = (\<lambda>c s a. (Suc s, 1, False))\<rparr>"

definition fork_second :: "(nat, nat) episode" where
  "fork_second = \<lparr>ep_transs = [(0, [(0, [(1, 1)])])], ep_utils = [(0, 0)], ep_freqs = [(1, 1)],
     ep_state = 1, ep_reward = 1, ep_actions = [0, 1], ep_rewardEstimate = Some 0,
     ep_bestAction = Some 1, ep_isTerminal = False, ep_t = 0\<rparr>"

text \<open>An environment that pays \<open>-600\<close> for every step and never ends the episode.\<close>

definition toll_env :: "(nat, nat) environment" where
  "toll_env = \<lparr>env_getStartingState = 0, env_getActions = (\<lambda>s. [0]),
     env_do = (\<lambda>c s a. (Suc s, - 600, False))\<rparr>"

section \<open>Basic facts\<close>

lemmas table_defs = dict_get_def dict_incr_def transs_incr_def

lemmas estimate_defs = getEstimates_def getEstimatesOptimistic_def candidates_def freq_of_def
  count_of_def probs_of_def expected_def best_of_def py_max_def tuple_less_def

lemmas episode_defs = adp_random_exploration_def adp_random_exploration_state_def
  adp_optimistic_rewards_def body_A_def body_B_def body_C_def explore_A_def explore_B_def
  choose_action_def random_choice_def observe_update_def initial_best_def finish_def
  alpha_def kw_get_def no_kwargs_def Let_def run_loop.simps

lemmas sample_defs = chain_env_def fixed_draw_def sample_episode_def sample_agent_def
  walk_env_def


lemma bind_err_Inl [simp]: "bind_err (Inl e) f = Inl e"
  by (simp add: bind_err_def)

lemma bind_err_Inr [simp]: "bind_err (Inr x) f = f x"
  by (simp add: bind_err_def)

lemma bind_err_eq_Inr: "bind_err m f = Inr y \<longleftrightarrow> (\<exists>x. m = Inr x \<and> f x = Inr y)"
  by (cases m) simp_all

lemma collect_map: "(\<And>x. x \<in> set xs \<Longrightarrow> f x = Inr (g x)) \<Longrightarrow> collect f xs = Inr (map g xs)"
  by (induction xs) simp_all

lemma collect_Inr_map:
  "collect f xs = Inr ys \<Longrightarrow> (\<And>x y. x \<in> set xs \<Longrightarrow> f x = Inr y \<Longrightarrow> y = g x) \<Longrightarrow> ys = map g xs"
proof (induction xs arbitrary: ys)
  case Nil
  then show ?case by simp
next
  case (Cons x xs)
  from Cons.prems(1) obtain y ys' where y: "f x = Inr y" and ys': "collect f xs = Inr ys'"
    and ys: "ys = y # ys'"
    by (auto simp: bind_err_eq_Inr)
  have "y = g x" using Cons.prems(2) y by simp
  moreover have "ys' = map g xs" using Cons.IH [OF ys'] Cons.prems(2) by simp
  ultimately show ?case using ys by simp
qed

lemma map_of_dict_set: "map_of (dict_set d k v) = (map_of d)(k \<mapsto> v)"
  by (induction d k v rule: dict_set.induct) auto

lemma dict_get_dict_set: "dict_get (dict_set d k v) k' dflt = (if k' = k then v else dict_get d k' dflt)"
  by (simp add: dict_get_def map_of_dict_set)


lemma keys_dict_set: "set (map fst (dict_set d k v)) = insert k (set (map fst d))"
  by (induction d k v rule: dict_set.induct) auto

lemma distinct_dict_set: "distinct (map fst d) \<Longrightarrow> distinct (map fst (dict_set d k v))"
proof (induction d k v rule: dict_set.induct)
  case (1 k v)
  then show ?case by simp
next
  case (2 k' v' d k v)
  have "fst ` set (dict_set d k v) = insert k (fst ` set d)"
    using keys_dict_set [of d k v] by simp
  with 2 show ?case by auto
qed

lemma dict_set_nonempty: "dict_set d k v \<noteq> []"
  by (cases d) (auto split: if_splits)

lemma dict_get_in_set: "map_of d k = Some v \<Longrightarrow> (k, v) \<in> set d"
  by (rule map_of_SomeD)

lemma freq_of_positive:
  assumes "positive_counts transs" and "(s', c) \<in> set (freq_of transs s ac)"
  shows "1 \<le> c"
proof -
  from assms(2) obtain byAction where b: "map_of transs s = Some byAction"
    by (cases "map_of transs s") (auto simp: freq_of_def dict_get_def)
  with assms(2) obtain bySucc where f: "map_of byAction ac = Some bySucc"
    by (cases "map_of byAction ac") (auto simp: freq_of_def dict_get_def)
  from b f have fr: "freq_of transs s ac = bySucc"
    by (simp add: freq_of_def dict_get_def)
  from b have "(s, byAction) \<in> set transs" by (rule map_of_SomeD)
  moreover from f have "(ac, bySucc) \<in> set byAction" by (rule map_of_SomeD)
  ultimately show ?thesis using assms fr unfolding positive_counts_def by fastforce
qed

lemma count_of_length: "\<forall>p \<in> set freq. 1 \<le> snd p \<Longrightarrow> int (length freq) \<le> count_of freq"
  by (induction freq) (auto simp: count_of_def)

lemma count_of_positive:
  assumes "\<And>s' c. (s', c) \<in> set freq \<Longrightarrow> 1 \<le> c" and "freq \<noteq> []"
  shows "0 < count_of freq"
proof -
  have "\<forall>p \<in> set freq. 1 \<le> snd p" using assms(1) by auto
  then have "int (length freq) \<le> count_of freq" by (rule count_of_length)
  moreover have "0 < length freq" using assms(2) by simp
  ultimately show ?thesis by linarith
qed


lemma probs_of_ok:
  "freq = [] \<or> count_of freq \<noteq> 0 \<Longrightarrow>
   probs_of freq = Inr (map (\<lambda>(key, val). (key, real_of_int val / real_of_int (count_of freq))) freq)"
  unfolding probs_of_def Let_def
  by (rule collect_map) auto

lemma probs_of_Inr:
  "probs_of freq = Inr probs \<Longrightarrow>
   probs = map (\<lambda>(key, val). (key, real_of_int val / real_of_int (count_of freq))) freq"
  unfolding probs_of_def Let_def
  by (erule collect_Inr_map) (auto split: if_splits)

lemma probs_of_positive:
  assumes "positive_counts transs"
  shows "probs_of (freq_of transs s ac) =
     Inr (map (\<lambda>(key, val). (key, real_of_int val / real_of_int (count_of (freq_of transs s ac))))
            (freq_of transs s ac))"
proof (rule probs_of_ok)
  show "freq_of transs s ac = [] \<or> count_of (freq_of transs s ac) \<noteq> 0"
    using count_of_positive [of "freq_of transs s ac"] freq_of_positive [OF assms]
    by fastforce
qed

lemma expected_normalised:
  "expected utils (map (\<lambda>(key, val). (key, real_of_int val / real_of_int n)) freq) =
   (\<Sum>(s', c) \<leftarrow> freq. real_of_int c / real_of_int n * dict_get utils s' 0)"
  by (simp add: expected_def comp_def case_prod_unfold)


lemma estimate_action_positive:
  assumes "positive_counts transs"
  shows "bind_err (probs_of (freq_of transs s ac)) (\<lambda>probs. Inr (expected utils probs, ac)) =
         Inr (spec_expected_utility transs utils s ac, ac)"
  by (simp add: probs_of_positive [OF assms] expected_normalised spec_expected_utility_def Let_def)

lemma getEstimates_positive:
  assumes "positive_counts transs"
  shows "getEstimates transs utils s acts =
         Inr (map (\<lambda>ac. (spec_expected_utility transs utils s ac, ac)) (candidates transs s acts))"
  unfolding getEstimates_def Let_def
  by (rule collect_map) (simp add: estimate_action_positive [OF assms])

lemma getEstimatesOptimistic_positive:
  assumes "positive_counts transs"
  shows "getEstimatesOptimistic transs utils s R_plus N_e acts =
         Inr (map (\<lambda>ac. if count_of (freq_of transs s ac) < N_e then (R_plus, ac)
                         else (spec_expected_utility transs utils s ac, ac))
                (candidates transs s acts))"
  unfolding getEstimatesOptimistic_def Let_def
  by (rule collect_map)
     (simp add: probs_of_positive [OF assms] expected_normalised spec_expected_utility_def Let_def)

lemma getEstimatesOptimistic_Inr:
  assumes "getEstimatesOptimistic transs utils s R_plus N_e acts = Inr ests"
  shows "ests = map (\<lambda>ac. if count_of (freq_of transs s ac) < N_e then (R_plus, ac)
                         else (spec_expected_utility transs utils s ac, ac))
                (candidates transs s acts)"
  using assms unfolding getEstimatesOptimistic_def Let_def
  by (rule collect_Inr_map)
     (auto simp: bind_err_eq_Inr expected_normalised spec_expected_utility_def Let_def
           dest!: probs_of_Inr split: if_splits)

lemma zero_count_unrecorded:
  assumes "positive_counts transs" and "count_of (freq_of transs s ac) = 0"
  shows "freq_of transs s ac = []"
  using count_of_positive [of "freq_of transs s ac"] freq_of_positive [OF assms(1)] assms(2)
  by fastforce

lemma zero_count_utility:
  assumes "positive_counts transs" and "count_of (freq_of transs s ac) = 0"
  shows "spec_expected_utility transs utils s ac = 0"
  by (simp add: spec_expected_utility_def zero_count_unrecorded [OF assms])

lemma tuple_less_irrefl: "\<not> tuple_less p p"
  by (simp add: tuple_less_def)

lemma tuple_less_trans: "tuple_less p q \<Longrightarrow> tuple_less q r \<Longrightarrow> tuple_less p r"
  by (auto simp: tuple_less_def)

lemma tuple_less_total: "p = q \<or> tuple_less p q \<or> tuple_less q p"
  by (cases p; cases q) (auto simp: tuple_less_def)

lemma tuple_less_asym: "tuple_less p q \<Longrightarrow> \<not> tuple_less q p"
  by (auto simp: tuple_less_def)

lemma max_from_in: "max_from best xs \<in> set (best # xs)"
  by (induction xs arbitrary: best) (auto split: if_splits)

lemma max_from_ge_best: "\<not> tuple_less (max_from best xs) best"
proof (induction xs arbitrary: best)
  case Nil
  then show ?case by (simp add: tuple_less_irrefl)
next
  case (Cons x xs)
  show ?case
  proof (cases "tuple_less best x")
    case True
    have "\<not> tuple_less (max_from x xs) x" by (rule Cons.IH)
    then have "\<not> tuple_less (max_from x xs) best"
      using True tuple_less_trans by blast
    then show ?thesis using True by simp
  next
    case False
    then show ?thesis using Cons.IH [of best] by simp
  qed
qed

lemma max_from_ge: "q \<in> set (best # xs) \<Longrightarrow> \<not> tuple_less (max_from best xs) q"
proof (induction xs arbitrary: best)
  case Nil
  then show ?case by (simp add: tuple_less_irrefl)
next
  case (Cons x xs)
  let ?b = "if tuple_less best x then x else best"
  have m: "max_from best (x # xs) = max_from ?b xs" by simp
  consider "q = best" | "q = x" | "q \<in> set xs" using Cons.prems by auto
  then show ?case
  proof cases
    case 1
    then show ?thesis using max_from_ge_best [of best "x # xs"] by simp
  next
    case 2
    have nb: "\<not> tuple_less (max_from ?b xs) ?b" by (rule max_from_ge_best)
    show ?thesis
    proof (cases "tuple_less best x")
      case True
      then show ?thesis using nb 2 by simp
    next
      case False
      then have "x = best \<or> tuple_less x best" using tuple_less_total [of x best] by blast
      moreover have "\<not> tuple_less (max_from best xs) best" using nb False by simp
      ultimately have "\<not> tuple_less (max_from best xs) x"
        using tuple_less_trans [of "max_from best xs" x best] by blast
      then show ?thesis using False 2 by simp
    qed
  next
    case 3
    then have "q \<in> set (?b # xs)" by simp
    then have "\<not> tuple_less (max_from ?b xs) q" by (rule Cons.IH)
    then show ?thesis by simp
  qed
qed

lemma py_max_Inr:
  assumes "py_max xs = Inr p"
  shows "p \<in> set xs" and "\<And>q. q \<in> set xs \<Longrightarrow> \<not> tuple_less p q"
proof -
  from assms obtain x rest where xs: "xs = x # rest" and p: "p = max_from x rest"
    by (cases xs) (auto simp: py_max_def)
  show "p \<in> set xs" using max_from_in [of x rest] xs p by simp
  show "\<not> tuple_less p q" if "q \<in> set xs" for q
    using that max_from_ge [of q x rest] xs p by simp
qed

lemma py_max_nonempty: "xs \<noteq> [] \<Longrightarrow> \<exists>p. py_max xs = Inr p"
  by (cases xs) (auto simp: py_max_def)

lemma py_max_set_eq:
  assumes "py_max xs = Inr p" and "set ys = set xs"
  shows "py_max ys = Inr p"
proof -
  have "ys \<noteq> []" using assms py_max_Inr(1) [OF assms(1)] by auto
  then obtain q where q: "py_max ys = Inr q" using py_max_nonempty by blast
  have "\<not> tuple_less p q" using py_max_Inr(2) [OF assms(1)] py_max_Inr(1) [OF q] assms(2) by simp
  moreover have "\<not> tuple_less q p" using py_max_Inr(2) [OF q] py_max_Inr(1) [OF assms(1)] assms(2) by simp
  ultimately have "q = p" using tuple_less_total [of p q] by blast
  then show ?thesis using q by simp
qed

section \<open>The estimation routines\<close>

text \<open>
  C8. For a transition model whose stored counts are at least one, and a candidate action
  whose total observation count for the state is zero, \<open>getEstimates\<close> and
  \<open>getEstimatesOptimistic\<close> return without raising: no division is performed for
  that action, since it has no recorded successor, and its plain expected utility is 0
  (the optimistic routine emits \<open>R_plus\<close> for it when \<open>0 < N_e\<close>).
\<close>

theorem zero_count_no_fault:
  assumes "positive_counts transs"
    and "count_of (freq_of transs currState ac) = 0"
    and "ac \<in> set (candidates transs currState currActions)"
  shows "(\<exists>ests. getEstimates transs utils currState currActions = Inr ests \<and> (0, ac) \<in> set ests)
       \<and> (\<exists>ests. getEstimatesOptimistic transs utils currState R_plus N_e currActions = Inr ests
             \<and> ((if 0 < N_e then R_plus else 0), ac) \<in> set ests)
       \<and> probs_of (freq_of transs currState ac) = Inr []
       \<and> expected utils [] = 0"
proof -
  have u: "spec_expected_utility transs utils currState ac = 0"
    using assms(1,2) by (rule zero_count_utility)
  have "(0, ac) \<in> set (map (\<lambda>ac. (spec_expected_utility transs utils currState ac, ac))
                          (candidates transs currState currActions))"
    using assms(3) u by force
  then have plain: "\<exists>ests. getEstimates transs utils currState currActions = Inr ests
      \<and> (0, ac) \<in> set ests"
    by (simp add: getEstimates_positive [OF assms(1)])
  have "((if 0 < N_e then R_plus else 0), ac) \<in>
      set (map (\<lambda>ac. if count_of (freq_of transs currState ac) < N_e then (R_plus, ac)
                      else (spec_expected_utility transs utils currState ac, ac))
             (candidates transs currState currActions))"
    using assms(2,3) u by force
  then have opt: "\<exists>ests. getEstimatesOptimistic transs utils currState R_plus N_e currActions
      = Inr ests \<and> ((if 0 < N_e then R_plus else 0), ac) \<in> set ests"
    by (simp add: getEstimatesOptimistic_positive [OF assms(1)])
  have "probs_of (freq_of transs currState ac) = Inr []"
    by (simp add: zero_count_unrecorded [OF assms(1,2)] probs_of_def)
  then show ?thesis using plain opt by (simp add: expected_def)
qed

theorem zero_count_no_fault_witness:
  "positive_counts sample_transs
   \<and> count_of (freq_of sample_transs 0 2) = 0
   \<and> 2 \<in> set (candidates sample_transs 0 (Some [1, 2]))
   \<and> (\<exists>ests. getEstimates sample_transs sample_utils 0 (Some [1, 2]) = Inr ests
         \<and> (0, 2) \<in> set ests)
   \<and> (\<exists>ests. getEstimatesOptimistic sample_transs sample_utils 0 5 12 (Some [1, 2]) = Inr ests
         \<and> (5, 2) \<in> set ests)"
proof -
  have h1: "positive_counts sample_transs"
    by (simp add: positive_counts_def sample_transs_def)
  have h2: "count_of (freq_of sample_transs 0 2) = 0"
    by (simp add: count_of_def freq_of_def dict_get_def sample_transs_def)
  have h3: "2 \<in> set (candidates sample_transs 0 (Some [1, 2]))"
    by (simp add: candidates_def)
  show ?thesis
    using zero_count_no_fault [OF h1 h2 h3, of sample_utils 5 12] h1 h2 h3 by simp
qed

text \<open>
  The invariant is needed: a model handed in with a stored count of zero has a zero
  total with an entry to divide, and the division raises in both routines.
\<close>

theorem stored_zero_count_raises:
  "count_of (freq_of [(0::nat, [(1::nat, [(5::nat, 0)])])] 0 1) = 0
   \<and> 1 \<in> set (candidates [(0::nat, [(1::nat, [(5::nat, 0)])])] 0 (Some [1]))
   \<and> getEstimates [(0::nat, [(1::nat, [(5, 0)])])] [] 0 (Some [1]) = Inl ZeroDivisionError
   \<and> getEstimatesOptimistic [(0::nat, [(1::nat, [(5, 0)])])] [] 0 5 12 (Some [1])
       = Inl ZeroDivisionError"
  by (simp add: estimate_defs table_defs)

text \<open>
  C9. Whenever \<open>getEstimatesOptimistic\<close> returns, it has emitted, for each candidate
  action in turn, the pair \<open>(R_plus, action)\<close> if the total observation count of that
  action is below \<open>N_e\<close> and the pair of the plain expected utility and the action
  otherwise: the substitution is decided action by action. It returns for every
  transition model whose stored counts are at least one.
\<close>

theorem optimistic_substitution:
  "(getEstimatesOptimistic transs utils currState R_plus N_e currActions = Inr ests \<longrightarrow>
      ests = map (\<lambda>ac. if count_of (freq_of transs currState ac) < N_e then (R_plus, ac)
                        else (spec_expected_utility transs utils currState ac, ac))
               (candidates transs currState currActions))
   \<and> (positive_counts transs \<longrightarrow>
        (\<exists>ests. getEstimatesOptimistic transs utils currState R_plus N_e currActions = Inr ests))"
  using getEstimatesOptimistic_Inr [of transs utils currState R_plus N_e currActions ests]
    getEstimatesOptimistic_positive [of transs utils currState R_plus N_e currActions]
  by simp

theorem optimistic_substitution_witness:
  "getEstimatesOptimistic sample_transs sample_utils 0 5 1 (Some [1, 2]) = Inr [(3, 1), (5, 2)]
   \<and> positive_counts sample_transs
   \<and> [(3, 1), (5, 2)] =
       map (\<lambda>ac. if count_of (freq_of sample_transs 0 ac) < 1 then (5, ac)
                  else (spec_expected_utility sample_transs sample_utils 0 ac, ac))
         (candidates sample_transs 0 (Some [1, 2]))"
proof -
  have h1: "getEstimatesOptimistic sample_transs sample_utils 0 5 1 (Some [1, 2])
      = Inr [(3, 1), (5, 2)]"
    by (simp add: getEstimatesOptimistic_def candidates_def freq_of_def dict_get_def
        probs_of_def count_of_def expected_def sample_transs_def sample_utils_def)
  have h2: "positive_counts sample_transs"
    by (simp add: positive_counts_def sample_transs_def)
  show ?thesis
    using optimistic_substitution [of sample_transs sample_utils 0 5 1 "Some [1, 2]"
        "[(3, 1), (5, 2)]"] h1 h2
    by simp
qed

section \<open>The choice of the maximum\<close>

text \<open>
  C5. The pair selected by \<^verbatim>\<open>max\<close> from the estimates in \<open>getPolicy\<close> and in the
  strategies is determined by the set of estimates alone: it is their greatest element
  in the lexicographic order of pairs. Among the candidate actions that attain the
  maximal estimate the greatest action wins, wherever it stands in the sequence.
\<close>

theorem best_of_lexicographic:
  assumes "best_of (Inr ests) = Inr (v, a)"
  shows "(v, a) \<in> set ests
       \<and> (\<forall>(v', a') \<in> set ests. v' < v \<or> (v' = v \<and> a' \<le> a))
       \<and> (\<forall>ests'. set ests' = set ests \<longrightarrow> best_of (Inr ests') = Inr (v, a))"
proof -
  from assms have m: "py_max ests = Inr (v, a)" by (simp add: best_of_def)
  have "v' < v \<or> (v' = v \<and> a' \<le> a)" if "(v', a') \<in> set ests" for v' a'
    using py_max_Inr(2) [OF m that] by (auto simp: tuple_less_def)
  moreover have "best_of (Inr ests') = Inr (v, a)" if "set ests' = set ests" for ests'
    using py_max_set_eq [OF m that] by (simp add: best_of_def)
  ultimately show ?thesis using py_max_Inr(1) [OF m] by auto
qed

theorem best_of_lexicographic_witness:
  "best_of (Inr [(0, 1::nat), (0, 2)]) = Inr (0, 2)
   \<and> (0, 2::nat) \<in> set [(0::real, 1), (0, 2)]
   \<and> best_of (Inr [(0, 2::nat), (0, 1)]) = Inr (0, 2)"
proof -
  have h: "best_of (Inr [(0, 1::nat), (0, 2)]) = Inr (0, 2)"
    by (simp add: best_of_def py_max_def tuple_less_def)
  have "set [(0::real, 2::nat), (0, 1)] = set [(0, 1), (0, 2)]" by auto
  then have "best_of (Inr [(0, 2::nat), (0, 1)]) = Inr (0, 2)"
    using best_of_lexicographic [OF h] by blast
  then show ?thesis using best_of_lexicographic [OF h] h by simp
qed

text \<open>
  Two candidate actions, 1 and then 2, both with estimate 0 in an empty model: the
  selected action is 2, the one seen last.
\<close>

theorem tie_not_first_seen:
  "getEstimates [] [] (0::nat) (Some [1::nat, 2]) = Inr [(0, 1), (0, 2)]
   \<and> best_of (getEstimates [] [] (0::nat) (Some [1::nat, 2])) = Inr (0, 2)"
  by (simp add: getEstimates_def candidates_def freq_of_def dict_get_def probs_of_def
      count_of_def expected_def best_of_def py_max_def tuple_less_def)

section \<open>The step size\<close>

text \<open>The keyword \<^verbatim>\<open>alpha\<close> is read and bound, and has no effect on the result.\<close>

lemma kw_alpha_ignored:
  "adp_random_exploration env transs utils freqs (kwargs\<lparr>kw_alpha := a\<rparr>) rnd
     = adp_random_exploration env transs utils freqs kwargs rnd"
  "adp_random_exploration_state env transs utils freqs (kwargs\<lparr>kw_alpha := a\<rparr>) rnd
     = adp_random_exploration_state env transs utils freqs kwargs rnd"
  "adp_optimistic_rewards env transs utils freqs (kwargs\<lparr>kw_alpha := a\<rparr>) rnd
     = adp_optimistic_rewards env transs utils freqs kwargs rnd"
  by (simp_all add: adp_random_exploration_def adp_random_exploration_state_def
      adp_optimistic_rewards_def Let_def)

text \<open>
  C2. The default step size is \<open>50 / (49 + n)\<close>. A step size passed as \<^verbatim>\<open>alpha\<close>
  is not used by the utility update: with the constant step size 1 passed, one step from
  state 0 into state 1 of utility 7 stores \<open>U[0] = 0 + 50/49 * 7 = 50/7\<close>, the value
  of the default schedule at 0, where the passed function gives \<open>0 + 1 * 7 = 7\<close>.
\<close>

theorem supplied_alpha_unused:
  "alpha 0 = Inr (50 / 49)
   \<and> adp_random_exploration chain_env [] [(1, 7)] []
        (no_kwargs\<lparr>kw_alpha := Some unit_step\<rparr>) fixed_draw
     = Inr (1, [(0, [(0, [(1, 1)])])], [(1, 7), (0, 50 / 7)], [(1, 1)])
   \<and> adp_random_exploration_state chain_env [] [(1, 7)] []
        (no_kwargs\<lparr>kw_alpha := Some unit_step\<rparr>) fixed_draw
     = Inr (1, [(0, [(0, [(1, 1)])])], [(1, 7), (0, 50 / 7)], [(1, 1)])
   \<and> adp_optimistic_rewards chain_env [] [(1, 7)] []
        (no_kwargs\<lparr>kw_alpha := Some unit_step, kw_N_e := Some 1\<rparr>) fixed_draw
     = Inr (1, [(0, [(0, [(1, 1)])])], [(1, 7), (0, 50 / 7)], [(1, 1)])"
  by (simp add: episode_defs estimate_defs table_defs chain_env_def fixed_draw_def)

section \<open>Calls without tables\<close>

text \<open>
  C4. A call of a strategy function that passes no tables does not begin with empty
  tables: two such calls in a row, the first right after the module is loaded, leave the
  count 2 for the entered state, so the second call has begun with the tables the first
  one left.
\<close>

theorem bare_calls_share_tables:
  "bind_err (bare_call adp_random_exploration chain_env no_kwargs fixed_draw module_loaded)
     (\<lambda>(itr, dflt). bare_call adp_random_exploration chain_env no_kwargs fixed_draw dflt)
     = Inr (1, \<lparr>dflt_transs = [(0, [(0, [(1, 2)])])], dflt_utils = [(0, 0)],
                dflt_freqs = [(1, 2)]\<rparr>)
   \<and> bind_err (bare_call adp_random_exploration_state chain_env no_kwargs fixed_draw module_loaded)
     (\<lambda>(itr, dflt). bare_call adp_random_exploration_state chain_env no_kwargs fixed_draw dflt)
     = Inr (1, \<lparr>dflt_transs = [(0, [(0, [(1, 2)])])], dflt_utils = [(0, 0)],
                dflt_freqs = [(1, 2)]\<rparr>)
   \<and> bind_err (bare_call adp_optimistic_rewards chain_env no_kwargs fixed_draw module_loaded)
     (\<lambda>(itr, dflt). bare_call adp_optimistic_rewards chain_env no_kwargs fixed_draw dflt)
     = Inr (1, \<lparr>dflt_transs = [(0, [(0, [(1, 2)])])], dflt_utils = [(0, 250 / 49)],
                dflt_freqs = [(1, 2)]\<rparr>)"
  by (simp add: bare_call_def module_loaded_def episode_defs estimate_defs table_defs
      chain_env_def fixed_draw_def)

section \<open>One step of an episode\<close>

lemma observe_update_Inr:
  assumes "observe_update est env d ep act = Inr ep'"
    and "env_do env (rnd_nature d) (ep_state ep) act = (newState, new_reward, isTerminal)"
  obtains rewardEstimate b1 stepSize rewardEstimate2 b2 where
    "best_of (est (transs_incr (ep_transs ep) (ep_state ep) act newState) (ep_utils ep)
       (ep_state ep) (Some (env_getActions env (ep_state ep)))) = Inr (rewardEstimate, b1)"
    "alpha (dict_get (dict_incr (ep_freqs ep) newState) (ep_state ep) 0) = Inr stepSize"
    "best_of (est (transs_incr (ep_transs ep) (ep_state ep) act newState)
       (dict_set (ep_utils ep) (ep_state ep) (ep_reward ep + stepSize * rewardEstimate))
       newState (Some (env_getActions env newState))) = Inr (rewardEstimate2, b2)"
    "ep' = ep\<lparr>ep_transs := transs_incr (ep_transs ep) (ep_state ep) act newState,
              ep_utils := dict_set (ep_utils ep) (ep_state ep) (ep_reward ep + stepSize * rewardEstimate),
              ep_freqs := dict_incr (ep_freqs ep) newState, ep_state := newState,
              ep_reward := new_reward, ep_actions := env_getActions env newState,
              ep_rewardEstimate := Some rewardEstimate2,
              ep_bestAction := Some b2, ep_isTerminal := isTerminal\<rparr>"
  using assms unfolding observe_update_def Let_def
  by (auto simp: bind_err_eq_Inr)

lemma counts_le_refl: "counts_le freqs freqs"
  by (simp add: counts_le_def)

lemma counts_le_trans: "counts_le a b \<Longrightarrow> counts_le b c \<Longrightarrow> counts_le a c"
  unfolding counts_le_def by (meson order_trans)

lemma counts_le_dict_incr: "counts_le freqs (dict_incr freqs k)"
  by (auto simp: counts_le_def dict_incr_def map_of_dict_set dict_get_def)

lemma observe_update_counts:
  assumes "observe_update est env d ep act = Inr ep'"
  shows "counts_le (ep_freqs ep) (ep_freqs ep')"
proof -
  obtain newState new_reward isTerminal where
    e: "env_do env (rnd_nature d) (ep_state ep) act = (newState, new_reward, isTerminal)"
    by (cases "env_do env (rnd_nature d) (ep_state ep) act")
  from assms e have "ep_freqs ep' = dict_incr (ep_freqs ep) newState"
    by (rule observe_update_Inr) simp
  then show ?thesis by (simp add: counts_le_dict_incr)
qed

lemma body_counts:
  "body_A env tStep d ep = Inr ep' \<Longrightarrow> counts_le (ep_freqs ep) (ep_freqs ep')"
  "body_B env d ep = Inr ep' \<Longrightarrow> counts_le (ep_freqs ep) (ep_freqs ep')"
  "body_C env R_plus N_e d ep = Inr ep' \<Longrightarrow> counts_le (ep_freqs ep) (ep_freqs ep')"
  by (auto simp: body_A_def body_B_def body_C_def bind_err_eq_Inr dest: observe_update_counts)

lemma run_loop_relates:
  "run_loop body isTerminal maxItr itr st = Inr (itr', st') \<Longrightarrow>
   (\<And>i st st'. body i st = Inr st' \<Longrightarrow> R st st') \<Longrightarrow>
   (\<And>a b c. R a b \<Longrightarrow> R b c \<Longrightarrow> R a c) \<Longrightarrow> R st st'"
proof (induction body isTerminal maxItr itr st rule: run_loop.induct)
  case (1 body isTerminal maxItr itr st)
  note step = "1.prems"(2) and trans = "1.prems"(3)
  from "1.prems"(1) obtain st1 where b: "body (nat itr) st = Inr st1"
    by (subst (asm) run_loop.simps) (auto split: sum.splits)
  show ?case
  proof (cases "maxItr \<le> itr + 1 \<or> isTerminal st1")
    case True
    then have "st' = st1" using "1.prems"(1) b by (subst (asm) run_loop.simps) auto
    then show ?thesis using step [OF b] by simp
  next
    case False
    then have "run_loop body isTerminal maxItr (itr + 1) st1 = Inr (itr', st')"
      using "1.prems"(1) b by (subst (asm) run_loop.simps) auto
    then have "R st1 st'" using "1.IH" [OF b] False step trans by blast
    then show ?thesis using step [OF b] trans by blast
  qed
qed

lemma finish_counts:
  assumes "run_loop body ep_isTerminal maxItr 0 ep0 = Inr r"
    and "finish r = Inr (itr, transs', utils', freqs')"
    and "\<And>i st st'. body i st = Inr st' \<Longrightarrow> counts_le (ep_freqs st) (ep_freqs st')"
  shows "counts_le (ep_freqs ep0) freqs'"
proof -
  obtain n ep where r: "r = (n, ep)" by (cases r)
  have f: "freqs' = ep_freqs ep" using assms(2) r by (simp add: finish_def)
  have "run_loop body ep_isTerminal maxItr 0 ep0 = Inr (n, ep)" using assms(1) r by simp
  then have "counts_le (ep_freqs ep0) (ep_freqs ep)"
    using assms(3) counts_le_trans
    by (rule run_loop_relates [where R = "\<lambda>a b. counts_le (ep_freqs a) (ep_freqs b)"])
  then show ?thesis using f by simp
qed

lemma counts_A:
  assumes "adp_random_exploration env transs utils freqs kwargs rnd
             = Inr (itr, transs', utils', freqs')"
  shows "counts_le freqs freqs'"
proof -
  from assms obtain re ba r where
    "run_loop (\<lambda>i. body_A env (kw_get (kw_tStep kwargs) (4 / 5)) (rnd i)) ep_isTerminal
       (kw_get (kw_maxItr kwargs) 50) 0
       \<lparr>ep_transs = transs, ep_utils = utils, ep_freqs = freqs,
        ep_state = env_getStartingState env, ep_reward = 0,
        ep_actions = env_getActions env (env_getStartingState env),
        ep_rewardEstimate = re, ep_bestAction = ba, ep_isTerminal = False,
        ep_t = kw_get (kw_t kwargs) 1\<rparr> = Inr r"
    and "finish r = Inr (itr, transs', utils', freqs')"
    unfolding adp_random_exploration_def Let_def by (auto simp: bind_err_eq_Inr)
  from finish_counts [OF this body_counts(1)] show ?thesis by simp
qed

lemma counts_B:
  assumes "adp_random_exploration_state env transs utils freqs kwargs rnd
             = Inr (itr, transs', utils', freqs')"
  shows "counts_le freqs freqs'"
proof -
  from assms obtain r where
    "run_loop (\<lambda>i. body_B env (rnd i)) ep_isTerminal (kw_get (kw_maxItr kwargs) 50) 0
       \<lparr>ep_transs = transs, ep_utils = utils, ep_freqs = freqs,
        ep_state = env_getStartingState env, ep_reward = 0,
        ep_actions = env_getActions env (env_getStartingState env),
        ep_rewardEstimate = None, ep_bestAction = None, ep_isTerminal = False,
        ep_t = 0\<rparr> = Inr r"
    and "finish r = Inr (itr, transs', utils', freqs')"
    unfolding adp_random_exploration_state_def Let_def by (auto simp: bind_err_eq_Inr)
  from finish_counts [OF this body_counts(2)] show ?thesis by simp
qed

lemma counts_C:
  assumes "adp_optimistic_rewards env transs utils freqs kwargs rnd
             = Inr (itr, transs', utils', freqs')"
  shows "counts_le freqs freqs'"
proof -
  from assms obtain re ba r where
    "run_loop (\<lambda>i. body_C env (kw_get (kw_R_plus kwargs) 5) (kw_get (kw_N_e kwargs) 12) (rnd i))
       ep_isTerminal (kw_get (kw_maxItr kwargs) 10) 0
       \<lparr>ep_transs = transs, ep_utils = utils, ep_freqs = freqs,
        ep_state = env_getStartingState env, ep_reward = 0,
        ep_actions = env_getActions env (env_getStartingState env),
        ep_rewardEstimate = re, ep_bestAction = ba, ep_isTerminal = False,
        ep_t = 0\<rparr> = Inr r"
    and "finish r = Inr (itr, transs', utils', freqs')"
    unfolding adp_optimistic_rewards_def Let_def by (auto simp: bind_err_eq_Inr)
  from finish_counts [OF this body_counts(3)] show ?thesis by simp
qed

lemmas strategy_counts = counts_A counts_B counts_C

lemma learn_trials_counts:
  assumes "\<And>transs utils freqs rnd itr transs' utils' freqs'.
      alg env transs utils freqs kwargs rnd = Inr (itr, transs', utils', freqs')
        \<Longrightarrow> counts_le freqs freqs'"
  shows "learn_trials alg env kwargs rnds trials itrs self = Inr (itrs', self')
    \<Longrightarrow> counts_le (nTable self) (nTable self')"
proof (induction trials arbitrary: itrs self)
  case Nil
  then show ?case by (simp add: counts_le_refl)
next
  case (Cons trial rest)
  from Cons.prems obtain n transs utils freqs where
    a: "alg env (transTable self) (uTable self) (nTable self) kwargs (rnds trial)
          = Inr (n, transs, utils, freqs)"
    and l: "learn_trials alg env kwargs rnds rest (itrs + n)
          (self\<lparr>transTable := transs, uTable := utils, nTable := freqs\<rparr>) = Inr (itrs', self')"
    by (auto simp: bind_err_eq_Inr)
  have "counts_le (nTable self) freqs" using a by (rule assms)
  moreover have "counts_le freqs (nTable self')" using Cons.IH [OF l] by simp
  ultimately show ?case by (rule counts_le_trans)
qed

lemma observe_update_specified:
  assumes "observe_update est env d ep act = Inr ep'"
  shows "step_as_specified est env d ep act ep'"
proof -
  obtain newState new_reward isTerminal where
    e: "env_do env (rnd_nature d) (ep_state ep) act = (newState, new_reward, isTerminal)"
    by (cases "env_do env (rnd_nature d) (ep_state ep) act")
  from assms e show ?thesis
  proof (rule observe_update_Inr)
    fix rewardEstimate b1 stepSize rewardEstimate2 b2
    assume 1: "best_of (est (transs_incr (ep_transs ep) (ep_state ep) act newState) (ep_utils ep)
       (ep_state ep) (Some (env_getActions env (ep_state ep)))) = Inr (rewardEstimate, b1)"
      and 2: "alpha (dict_get (dict_incr (ep_freqs ep) newState) (ep_state ep) 0) = Inr stepSize"
      and 4: "ep' = ep\<lparr>ep_transs := transs_incr (ep_transs ep) (ep_state ep) act newState,
              ep_utils := dict_set (ep_utils ep) (ep_state ep) (ep_reward ep + stepSize * rewardEstimate),
              ep_freqs := dict_incr (ep_freqs ep) newState, ep_state := newState,
              ep_reward := new_reward, ep_actions := env_getActions env newState,
              ep_rewardEstimate := Some rewardEstimate2,
              ep_bestAction := Some b2, ep_isTerminal := isTerminal\<rparr>"
    show ?thesis
      unfolding step_as_specified_def e
      using 1 2 by (simp add: 4 dict_incr_def map_of_dict_set)
  qed
qed

lemma body_A_specified:
  assumes "body_A env tStep d ep = Inr ep'"
  shows "\<exists>explore act. explore_A (rnd_random d) (ep_t ep) (ep_bestAction ep) = Inr explore
     \<and> choose_action explore (rnd_choice d) (ep_actions ep) (ep_bestAction ep) = Inr act
     \<and> step_as_specified getEstimates env d ep act ep'"
proof -
  from assms obtain explore act ep1 where
    x: "explore_A (rnd_random d) (ep_t ep) (ep_bestAction ep) = Inr explore"
    and c: "choose_action explore (rnd_choice d) (ep_actions ep) (ep_bestAction ep) = Inr act"
    and o: "observe_update getEstimates env d ep act = Inr ep1"
    and t: "ep' = ep1\<lparr>ep_t := ep_t ep + tStep\<rparr>"
    by (auto simp: body_A_def bind_err_eq_Inr)
  have "step_as_specified getEstimates env d ep act ep1" using o by (rule observe_update_specified)
  then have "step_as_specified getEstimates env d ep act ep'"
    by (simp add: step_as_specified_def t)
  then show ?thesis using x c by blast
qed

lemma body_B_specified:
  assumes "body_B env d ep = Inr ep'"
  shows "\<exists>act. choose_action (explore_B (rnd_random d) (ep_freqs ep) (ep_bestAction ep))
                 (rnd_choice d) (ep_actions ep) (ep_bestAction ep) = Inr act
     \<and> step_as_specified getEstimates env d ep act ep'"
  using assms by (auto simp: body_B_def bind_err_eq_Inr dest: observe_update_specified)

lemma body_C_specified:
  assumes "body_C env R_plus N_e d ep = Inr ep'"
  shows "\<exists>act. choose_action False (rnd_choice d) (ep_actions ep) (ep_bestAction ep) = Inr act
     \<and> step_as_specified (\<lambda>transs utils currState.
           getEstimatesOptimistic transs utils currState R_plus N_e) env d ep act ep'"
  using assms by (auto simp: body_C_def bind_err_eq_Inr dest: observe_update_specified)

lemma first_reward_zero_I:
  "result = bind_err (run_loop body ep_isTerminal maxItr 0
       \<lparr>ep_transs = transs, ep_utils = utils, ep_freqs = freqs,
        ep_state = env_getStartingState env, ep_reward = 0, ep_actions = acts,
        ep_rewardEstimate = re, ep_bestAction = ba, ep_isTerminal = False, ep_t = t\<rparr>) finish
   \<Longrightarrow> first_reward_zero body maxItr env transs utils freqs result"
  unfolding first_reward_zero_def
  by (rule exI [of _ "\<lparr>ep_transs = transs, ep_utils = utils, ep_freqs = freqs,
        ep_state = env_getStartingState env, ep_reward = 0, ep_actions = acts,
        ep_rewardEstimate = re, ep_bestAction = ba, ep_isTerminal = False, ep_t = t\<rparr>"])
     simp

lemma first_reward_zero_A:
  assumes "adp_random_exploration env transs utils freqs kwargs rnd = Inr out"
  shows "first_reward_zero (\<lambda>i. body_A env (kw_get (kw_tStep kwargs) (4 / 5)) (rnd i))
       (kw_get (kw_maxItr kwargs) 50) env transs utils freqs (Inr out)"
proof -
  from assms obtain p where
    "(case p of (re, ba) \<Rightarrow>
       bind_err (run_loop (\<lambda>i. body_A env (kw_get (kw_tStep kwargs) (4 / 5)) (rnd i))
         ep_isTerminal (kw_get (kw_maxItr kwargs) 50) 0
         \<lparr>ep_transs = transs, ep_utils = utils, ep_freqs = freqs,
          ep_state = env_getStartingState env, ep_reward = 0,
          ep_actions = env_getActions env (env_getStartingState env),
          ep_rewardEstimate = re, ep_bestAction = ba, ep_isTerminal = False,
          ep_t = kw_get (kw_t kwargs) 1\<rparr>) finish) = Inr out"
    unfolding adp_random_exploration_def Let_def bind_err_eq_Inr by blast
  then show ?thesis by (cases p) (auto elim: first_reward_zero_I [OF sym])
qed

lemma first_reward_zero_B:
  "first_reward_zero (\<lambda>i. body_B env (rnd i)) (kw_get (kw_maxItr kwargs) 50) env transs utils freqs
     (adp_random_exploration_state env transs utils freqs kwargs rnd)"
  unfolding adp_random_exploration_state_def Let_def
  by (rule first_reward_zero_I) simp

lemma first_reward_zero_C:
  assumes "adp_optimistic_rewards env transs utils freqs kwargs rnd = Inr out"
  shows "first_reward_zero
       (\<lambda>i. body_C env (kw_get (kw_R_plus kwargs) 5) (kw_get (kw_N_e kwargs) 12) (rnd i))
       (kw_get (kw_maxItr kwargs) 10) env transs utils freqs (Inr out)"
proof -
  from assms obtain p where
    "(case p of (re, ba) \<Rightarrow>
       bind_err (run_loop
         (\<lambda>i. body_C env (kw_get (kw_R_plus kwargs) 5) (kw_get (kw_N_e kwargs) 12) (rnd i))
         ep_isTerminal (kw_get (kw_maxItr kwargs) 10) 0
         \<lparr>ep_transs = transs, ep_utils = utils, ep_freqs = freqs,
          ep_state = env_getStartingState env, ep_reward = 0,
          ep_actions = env_getActions env (env_getStartingState env),
          ep_rewardEstimate = re, ep_bestAction = ba, ep_isTerminal = False,
          ep_t = 0\<rparr>) finish) = Inr out"
    unfolding adp_optimistic_rewards_def Let_def bind_err_eq_Inr by blast
  then show ?thesis by (cases p) (auto elim: first_reward_zero_I [OF sym])
qed

text \<open>
  C6. In each of the three strategies a step that returns has incremented the count of
  \<open>newState\<close> and of no other state, and has stored for the state it left the utility
  \<open>reward + alpha (N[state]) * bestEstimate\<close>, where \<open>reward\<close> is the reward carried
  from the previous step and \<open>alpha\<close> is the module's step size; the reward just
  received is carried to the next step. The first step of an episode carries the reward 0.
\<close>

theorem lagged_reward_update:
  "(body_A env tStep d ep = Inr ep' \<longrightarrow>
      (\<exists>explore act. explore_A (rnd_random d) (ep_t ep) (ep_bestAction ep) = Inr explore
         \<and> choose_action explore (rnd_choice d) (ep_actions ep) (ep_bestAction ep) = Inr act
         \<and> step_as_specified getEstimates env d ep act ep'))
   \<and> (body_B env d ep = Inr ep' \<longrightarrow>
      (\<exists>act. choose_action (explore_B (rnd_random d) (ep_freqs ep) (ep_bestAction ep))
                (rnd_choice d) (ep_actions ep) (ep_bestAction ep) = Inr act
         \<and> step_as_specified getEstimates env d ep act ep'))
   \<and> (body_C env R_plus N_e d ep = Inr ep' \<longrightarrow>
      (\<exists>act. choose_action False (rnd_choice d) (ep_actions ep) (ep_bestAction ep) = Inr act
         \<and> step_as_specified (\<lambda>transs utils currState.
               getEstimatesOptimistic transs utils currState R_plus N_e) env d ep act ep'))
   \<and> (adp_random_exploration env transs utils freqs kwargs rnd = Inr out \<longrightarrow>
        first_reward_zero (\<lambda>i. body_A env (kw_get (kw_tStep kwargs) (4 / 5)) (rnd i))
          (kw_get (kw_maxItr kwargs) 50) env transs utils freqs (Inr out))
   \<and> first_reward_zero (\<lambda>i. body_B env (rnd i)) (kw_get (kw_maxItr kwargs) 50) env transs
        utils freqs (adp_random_exploration_state env transs utils freqs kwargs rnd)
   \<and> (adp_optimistic_rewards env transs utils freqs kwargs rnd = Inr out' \<longrightarrow>
        first_reward_zero
          (\<lambda>i. body_C env (kw_get (kw_R_plus kwargs) 5) (kw_get (kw_N_e kwargs) 12) (rnd i))
          (kw_get (kw_maxItr kwargs) 10) env transs utils freqs (Inr out'))"
  using body_A_specified [of env tStep d ep ep'] body_B_specified [of env d ep ep']
    body_C_specified [of env R_plus N_e d ep ep']
    first_reward_zero_A [of env transs utils freqs kwargs rnd out]
    first_reward_zero_B [of env rnd kwargs transs utils freqs]
    first_reward_zero_C [of env transs utils freqs kwargs rnd out']
  by blast

theorem lagged_reward_update_witness:
  "body_A chain_env (4 / 5) (fixed_draw 0) sample_episode
     = Inr (sample_episode\<lparr>ep_transs := [(0, [(0, [(1, 1)])])],
         ep_utils := [(1, 7), (0, 3 + 50 / 49 * 7)], ep_freqs := [(1, 1)], ep_state := 1,
         ep_reward := 1, ep_rewardEstimate := Some 0, ep_bestAction := Some 0,
         ep_isTerminal := True, ep_t := 9 / 5\<rparr>)
   \<and> step_as_specified getEstimates chain_env (fixed_draw 0) sample_episode 0
        (sample_episode\<lparr>ep_transs := [(0, [(0, [(1, 1)])])],
         ep_utils := [(1, 7), (0, 3 + 50 / 49 * 7)], ep_freqs := [(1, 1)], ep_state := 1,
         ep_reward := 1, ep_rewardEstimate := Some 0, ep_bestAction := Some 0,
         ep_isTerminal := True, ep_t := 9 / 5\<rparr>)
   \<and> body_B chain_env (fixed_draw 0) sample_episode
     = Inr (sample_episode\<lparr>ep_transs := [(0, [(0, [(1, 1)])])],
         ep_utils := [(1, 7), (0, 3 + 50 / 49 * 7)], ep_freqs := [(1, 1)], ep_state := 1,
         ep_reward := 1, ep_rewardEstimate := Some 0, ep_bestAction := Some 0,
         ep_isTerminal := True\<rparr>)
   \<and> body_C chain_env 5 12 (fixed_draw 0) sample_episode
     = Inr (sample_episode\<lparr>ep_transs := [(0, [(0, [(1, 1)])])],
         ep_utils := [(1, 7), (0, 3 + 50 / 49 * 5)], ep_freqs := [(1, 1)], ep_state := 1,
         ep_reward := 1, ep_rewardEstimate := Some 5, ep_bestAction := Some 0,
         ep_isTerminal := True\<rparr>)
   \<and> adp_random_exploration chain_env [] [] [] no_kwargs fixed_draw
     = Inr (1, [(0, [(0, [(1, 1)])])], [(0, 0)], [(1, 1)])
   \<and> first_reward_zero (\<lambda>i. body_A chain_env (4 / 5) (fixed_draw i)) 50 chain_env [] [] []
        (Inr (1, [(0, [(0, [(1, 1)])])], [(0, 0)], [(1, 1)]))
   \<and> adp_optimistic_rewards chain_env [] [] [] no_kwargs fixed_draw
     = Inr (1, [(0, [(0, [(1, 1)])])], [(0, 250 / 49)], [(1, 1)])"
proof -
  let ?A = "sample_episode\<lparr>ep_transs := [(0, [(0, [(1, 1)])])],
         ep_utils := [(1, 7), (0, 3 + 50 / 49 * 7)], ep_freqs := [(1, 1)], ep_state := 1,
         ep_reward := 1, ep_rewardEstimate := Some 0, ep_bestAction := Some 0,
         ep_isTerminal := True, ep_t := 9 / 5\<rparr>"
  have a: "body_A chain_env (4 / 5) (fixed_draw 0) sample_episode = Inr ?A"
    by (simp add: episode_defs estimate_defs table_defs sample_defs)
  have b: "body_B chain_env (fixed_draw 0) sample_episode
     = Inr (sample_episode\<lparr>ep_transs := [(0, [(0, [(1, 1)])])],
         ep_utils := [(1, 7), (0, 3 + 50 / 49 * 7)], ep_freqs := [(1, 1)], ep_state := 1,
         ep_reward := 1, ep_rewardEstimate := Some 0, ep_bestAction := Some 0,
         ep_isTerminal := True\<rparr>)"
    by (simp add: episode_defs estimate_defs table_defs sample_defs)
  have c: "body_C chain_env 5 12 (fixed_draw 0) sample_episode
     = Inr (sample_episode\<lparr>ep_transs := [(0, [(0, [(1, 1)])])],
         ep_utils := [(1, 7), (0, 3 + 50 / 49 * 5)], ep_freqs := [(1, 1)], ep_state := 1,
         ep_reward := 1, ep_rewardEstimate := Some 5, ep_bestAction := Some 0,
         ep_isTerminal := True\<rparr>)"
    by (simp add: episode_defs estimate_defs table_defs sample_defs)
  have d: "adp_random_exploration chain_env [] [] [] no_kwargs fixed_draw
     = Inr (1, [(0, [(0, [(1, 1)])])], [(0, 0)], [(1, 1)])"
    by (simp add: episode_defs estimate_defs table_defs sample_defs)
  have e: "adp_optimistic_rewards chain_env [] [] [] no_kwargs fixed_draw
     = Inr (1, [(0, [(0, [(1, 1)])])], [(0, 250 / 49)], [(1, 1)])"
    by (simp add: episode_defs estimate_defs table_defs sample_defs)
  have k: "kw_get (kw_tStep no_kwargs) (4 / 5) = (4 / 5 :: real)"
    "kw_get (kw_maxItr no_kwargs) 50 = (50 :: int)"
    by (simp_all add: kw_get_def no_kwargs_def)
  note L = lagged_reward_update [where env = chain_env and tStep = "4 / 5" and d = "fixed_draw 0"
        and ep = sample_episode and ep' = ?A and transs = "[]" and utils = "[]" and freqs = "[]"
        and kwargs = no_kwargs and rnd = fixed_draw
        and out = "(1, [(0, [(0, [(1, 1)])])], [(0, 0)], [(1, 1)])"]
  have ch: "choose_action x (rnd_choice (fixed_draw 0)) (ep_actions sample_episode)
              (ep_bestAction sample_episode) = Inr act \<Longrightarrow> act = 0" for x act
    by (simp add: choose_action_def random_choice_def sample_defs)
  have s: "step_as_specified getEstimates chain_env (fixed_draw 0) sample_episode 0 ?A"
    using L a ch by blast
  have f: "first_reward_zero (\<lambda>i. body_A chain_env (4 / 5) (fixed_draw i)) 50 chain_env [] [] []
        (Inr (1, [(0, [(0, [(1, 1)])])], [(0, 0)], [(1, 1)]))"
    using L d k by simp
  show ?thesis using a b c d e s f by simp
qed

section \<open>The frequency table over the life of an agent\<close>

text \<open>
  C10. An episode of any of the three strategies that returns leaves every count of the
  frequency table at least as large as it was, and so does any sequence of trials run on
  the tables of an agent; \<open>clearExperience\<close> leaves the frequency table, the transition
  model, the utility table and the results empty.
\<close>

theorem counts_never_decrease:
  "(adp_random_exploration env transs utils freqs kwargs rnd = Inr (itr, transs', utils', freqs')
      \<longrightarrow> counts_le freqs freqs')
   \<and> (adp_random_exploration_state env transs utils freqs kwargs rnd
        = Inr (itr, transs', utils', freqs') \<longrightarrow> counts_le freqs freqs')
   \<and> (adp_optimistic_rewards env transs utils freqs kwargs rnd
        = Inr (itr, transs', utils', freqs') \<longrightarrow> counts_le freqs freqs')
   \<and> (alg \<in> {adp_random_exploration, adp_random_exploration_state, adp_optimistic_rewards}
        \<longrightarrow> learn_trials alg env kwargs rnds trials itrs self = Inr (itrs', self')
        \<longrightarrow> counts_le (nTable self) (nTable self'))
   \<and> nTable (clearExperience self) = []
   \<and> transTable (clearExperience self) = []
   \<and> uTable (clearExperience self) = []
   \<and> results (clearExperience self) = []"
proof -
  have "counts_le (nTable self) (nTable self')"
    if "alg \<in> {adp_random_exploration, adp_random_exploration_state, adp_optimistic_rewards}"
      and "learn_trials alg env kwargs rnds trials itrs self = Inr (itrs', self')"
  proof -
    have a: "counts_le f f'" if "alg env t u f kwargs r = Inr (i, t', u', f')"
      for t u f r i t' u' f'
      using that \<open>alg \<in> _\<close> by (auto dest: strategy_counts)
    show ?thesis by (rule learn_trials_counts [OF a that(2)])
  qed
  then show ?thesis
    using strategy_counts [of env transs utils freqs kwargs rnd itr transs' utils' freqs']
    by (simp add: clearExperience_def)
qed

theorem counts_never_decrease_witness:
  "adp_random_exploration chain_env [] [] [(1, 4)] no_kwargs fixed_draw
     = Inr (1, [(0, [(0, [(1, 1)])])], [(0, 0)], [(1, 5)])
   \<and> adp_random_exploration_state chain_env [] [] [(1, 4)] no_kwargs fixed_draw
     = Inr (1, [(0, [(0, [(1, 1)])])], [(0, 0)], [(1, 5)])
   \<and> adp_optimistic_rewards chain_env [] [] [(1, 4)] no_kwargs fixed_draw
     = Inr (1, [(0, [(0, [(1, 1)])])], [(0, 250 / 49)], [(1, 5)])
   \<and> counts_le [(1::nat, 4)] [(1, 5)]
   \<and> learn_trials adp_random_exploration_state chain_env no_kwargs (\<lambda>k. fixed_draw) [0, 1] 0
        sample_agent
     = Inr (2, \<lparr>nTable = [(1, 6)], transTable = [(0, [(0, [(1, 2)])])], uTable = [(0, 0)],
                results = []\<rparr>)
   \<and> counts_le (nTable sample_agent) [(1, 6)]
   \<and> nTable (clearExperience sample_agent) = []"
proof -
  have a: "adp_random_exploration chain_env [] [] [(1, 4)] no_kwargs fixed_draw
     = Inr (1, [(0, [(0, [(1, 1)])])], [(0, 0)], [(1, 5)])"
    by (simp add: episode_defs estimate_defs table_defs sample_defs)
  have b: "adp_random_exploration_state chain_env [] [] [(1, 4)] no_kwargs fixed_draw
     = Inr (1, [(0, [(0, [(1, 1)])])], [(0, 0)], [(1, 5)])"
    by (simp add: episode_defs estimate_defs table_defs sample_defs)
  have c: "adp_optimistic_rewards chain_env [] [] [(1, 4)] no_kwargs fixed_draw
     = Inr (1, [(0, [(0, [(1, 1)])])], [(0, 250 / 49)], [(1, 5)])"
    by (simp add: episode_defs estimate_defs table_defs sample_defs)
  have l: "learn_trials adp_random_exploration_state chain_env no_kwargs (\<lambda>k. fixed_draw) [0, 1] 0
        sample_agent
     = Inr (2, \<lparr>nTable = [(1, 6)], transTable = [(0, [(0, [(1, 2)])])], uTable = [(0, 0)],
                results = []\<rparr>)"
    by (simp add: episode_defs estimate_defs table_defs sample_defs)
  have m: "adp_random_exploration_state
      \<in> {adp_random_exploration, adp_random_exploration_state, adp_optimistic_rewards}"
    by simp
  show ?thesis
    using counts_never_decrease [where env = chain_env and transs = "[]" and utils = "[]"
        and freqs = "[(1, 4)]" and kwargs = no_kwargs and rnd = fixed_draw and itr = 1
        and transs' = "[(0, [(0, [(1, 1)])])]" and utils' = "[(0, 0)]" and freqs' = "[(1, 5)]"
        and alg = adp_random_exploration_state and rnds = "\<lambda>k. fixed_draw"
        and trials = "[0, 1]" and itrs = 0 and self = sample_agent and itrs' = 2
        and self' = "\<lparr>nTable = [(1, 6)], transTable = [(0, [(0, [(1, 2)])])],
                      uTable = [(0, 0)], results = []\<rparr>"]
      a b c l m
    by simp
qed

section \<open>Exploration in strategy B\<close>

lemma loop_head_run_loop:
  "loop_head body isTerminal maxItr st0 itr st \<Longrightarrow>
   run_loop body isTerminal maxItr itr st = run_loop body isTerminal maxItr 0 st0"
proof (induction rule: loop_head.induct)
  case first
  then show ?case by simp
next
  case (again itr st st')
  have "run_loop body isTerminal maxItr itr st = run_loop body isTerminal maxItr (itr + 1) st'"
    using again.hyps(2,3) by (subst run_loop.simps) simp
  then show ?case using again.IH by simp
qed

lemma observe_update_freqs:
  assumes "observe_update est env d ep act = Inr ep'"
  shows "\<exists>newState. ep_freqs ep' = dict_incr (ep_freqs ep) newState" and "ep_bestAction ep' \<noteq> None"
proof -
  obtain newState new_reward isTerminal where
    e: "env_do env (rnd_nature d) (ep_state ep) act = (newState, new_reward, isTerminal)"
    by (cases "env_do env (rnd_nature d) (ep_state ep) act")
  from assms e show "\<exists>newState. ep_freqs ep' = dict_incr (ep_freqs ep) newState"
    by (rule observe_update_Inr) auto
  from assms e show "ep_bestAction ep' \<noteq> None"
    by (rule observe_update_Inr) auto
qed

lemma body_B_recorded:
  assumes "body_B env d ep = Inr ep'" and "distinct (map fst (ep_freqs ep))"
  shows "freqs_recorded ep'"
proof -
  from assms(1) obtain act where "observe_update getEstimates env d ep act = Inr ep'"
    by (auto simp: body_B_def bind_err_eq_Inr)
  then obtain newState where "ep_freqs ep' = dict_incr (ep_freqs ep) newState"
    using observe_update_freqs(1) by blast
  then show ?thesis using assms(2)
    by (simp add: freqs_recorded_def dict_incr_def distinct_dict_set dict_set_nonempty)
qed

lemma loop_head_B_recorded:
  assumes "loop_head (\<lambda>i. body_B env (rnd i)) ep_isTerminal maxItr ep0 itr ep"
    and "freqs_recorded ep0"
  shows "freqs_recorded ep"
  using assms
proof (induction rule: loop_head.induct)
  case first
  then show ?case by simp
next
  case (again itr st st')
  then have "distinct (map fst (ep_freqs st))" by (simp add: freqs_recorded_def)
  with again.hyps(2) show ?case by (rule body_B_recorded)
qed

lemma explore_B_recorded:
  assumes "freqs_recorded ep"
  shows "explore_B r (ep_freqs ep) (ep_bestAction ep) =
     (r < 1 / (real (card (fst ` set (ep_freqs ep))) + 1) \<or> ep_bestAction ep = None)"
proof (cases "ep_freqs ep = []")
  case True
  then have "ep_bestAction ep = None" using assms by (simp add: freqs_recorded_def)
  then show ?thesis by (simp add: explore_B_def)
next
  case False
  have "card (fst ` set (ep_freqs ep)) = length (ep_freqs ep)"
    using assms distinct_card [of "map fst (ep_freqs ep)"] by (simp add: freqs_recorded_def)
  then show ?thesis using False by (simp add: explore_B_def)
qed

lemma observe_update_actions:
  assumes "observe_update est env d ep act = Inr ep'"
  shows "actions_current env ep'"
proof -
  obtain newState new_reward isTerminal where
    e: "env_do env (rnd_nature d) (ep_state ep) act = (newState, new_reward, isTerminal)"
    by (cases "env_do env (rnd_nature d) (ep_state ep) act")
  from assms e show ?thesis
    by (rule observe_update_Inr) (simp add: actions_current_def)
qed

lemma loop_head_B_actions:
  assumes "loop_head (\<lambda>i. body_B env (rnd i)) ep_isTerminal maxItr ep0 itr ep"
    and "actions_current env ep0"
  shows "actions_current env ep"
  using assms
proof (induction rule: loop_head.induct)
  case first
  then show ?case by simp
next
  case (again itr st st')
  from again.hyps(2) obtain act where "observe_update getEstimates env (rnd (nat itr)) st act = Inr st'"
    by (auto simp: body_B_def bind_err_eq_Inr)
  then show ?case by (rule observe_update_actions)
qed

lemma body_B_unfolded:
  assumes "freqs_recorded ep" and "actions_current env ep"
  shows "body_B env d ep =
     bind_err
       (case ep_bestAction ep of
          None \<Rightarrow> random_choice (rnd_choice d) (env_getActions env (ep_state ep))
        | Some b \<Rightarrow>
            if rnd_random d < 1 / (real (card (fst ` set (ep_freqs ep))) + 1)
            then random_choice (rnd_choice d) (env_getActions env (ep_state ep))
            else Inr b)
       (observe_update getEstimates env d ep)"
proof -
  have a: "ep_actions ep = env_getActions env (ep_state ep)"
    using assms(2) by (simp add: actions_current_def)
  show ?thesis
  proof (cases "ep_bestAction ep")
    case None
    then show ?thesis by (simp add: body_B_def choose_action_def a)
  next
    case (Some b)
    then have "explore_B (rnd_random d) (ep_freqs ep) (ep_bestAction ep) =
        (rnd_random d < 1 / (real (card (fst ` set (ep_freqs ep))) + 1))"
      using explore_B_recorded [OF assms(1), of "rnd_random d"] by simp
    then show ?thesis using Some by (simp add: body_B_def choose_action_def a)
  qed
qed

text \<open>
  C3. At the top of every iteration of the loop of \<open>adp_random_exploration_state\<close>,
  with \<open>t\<close> the number of distinct states in the frequency table at that moment and
  \<open>r\<close> the value of \<^verbatim>\<open>random.random()\<close>: when no best action has been computed, or
  when \<open>r < 1 / (t + 1)\<close>, the agent explores, taking \<^verbatim>\<open>random.choice\<close> of the
  actions the environment offers in the current state; otherwise it takes the best
  action. The strategy continues from that state, so these are the iterations it runs.
\<close>

theorem explore_by_experience:
  assumes "loop_head (\<lambda>i. body_B env (rnd i)) ep_isTerminal (kw_get (kw_maxItr kwargs) 50)
      \<lparr>ep_transs = transs, ep_utils = utils, ep_freqs = freqs,
       ep_state = env_getStartingState env, ep_reward = 0,
       ep_actions = env_getActions env (env_getStartingState env),
       ep_rewardEstimate = None, ep_bestAction = None, ep_isTerminal = False, ep_t = 0\<rparr>
      itr ep"
    and "distinct (map fst freqs)"
  shows "body_B env d ep =
           bind_err
             (case ep_bestAction ep of
                None \<Rightarrow> random_choice (rnd_choice d) (env_getActions env (ep_state ep))
              | Some b \<Rightarrow>
                  if rnd_random d < 1 / (real (card (fst ` set (ep_freqs ep))) + 1)
                  then random_choice (rnd_choice d) (env_getActions env (ep_state ep))
                  else Inr b)
             (observe_update getEstimates env d ep)
       \<and> random_choice k xs = (if xs = [] then Inl IndexError else Inr (xs ! (k mod length xs)))
       \<and> adp_random_exploration_state env transs utils freqs kwargs rnd =
           bind_err (run_loop (\<lambda>i. body_B env (rnd i)) ep_isTerminal
                       (kw_get (kw_maxItr kwargs) 50) itr ep) finish"
proof -
  let ?ep0 = "\<lparr>ep_transs = transs, ep_utils = utils, ep_freqs = freqs,
       ep_state = env_getStartingState env, ep_reward = 0,
       ep_actions = env_getActions env (env_getStartingState env),
       ep_rewardEstimate = None, ep_bestAction = None, ep_isTerminal = False, ep_t = 0\<rparr>"
  have "freqs_recorded ?ep0" using assms(2) by (simp add: freqs_recorded_def)
  with assms(1) have rec: "freqs_recorded ep" by (rule loop_head_B_recorded)
  have "actions_current env ?ep0" by (simp add: actions_current_def)
  with assms(1) have cur: "actions_current env ep" by (rule loop_head_B_actions)
  have 1: "body_B env d ep =
           bind_err
             (case ep_bestAction ep of
                None \<Rightarrow> random_choice (rnd_choice d) (env_getActions env (ep_state ep))
              | Some b \<Rightarrow>
                  if rnd_random d < 1 / (real (card (fst ` set (ep_freqs ep))) + 1)
                  then random_choice (rnd_choice d) (env_getActions env (ep_state ep))
                  else Inr b)
             (observe_update getEstimates env d ep)"
    using rec cur by (rule body_B_unfolded)
  have 2: "random_choice k xs = (if xs = [] then Inl IndexError else Inr (xs ! (k mod length xs)))"
    by (simp add: random_choice_def)
  have "run_loop (\<lambda>i. body_B env (rnd i)) ep_isTerminal (kw_get (kw_maxItr kwargs) 50) itr ep
      = run_loop (\<lambda>i. body_B env (rnd i)) ep_isTerminal (kw_get (kw_maxItr kwargs) 50) 0 ?ep0"
    using assms(1) by (rule loop_head_run_loop)
  then have 3: "adp_random_exploration_state env transs utils freqs kwargs rnd =
           bind_err (run_loop (\<lambda>i. body_B env (rnd i)) ep_isTerminal
                       (kw_get (kw_maxItr kwargs) 50) itr ep) finish"
    by (simp add: adp_random_exploration_state_def Let_def)
  from 1 2 3 show ?thesis by (intro conjI)
qed

theorem explore_by_experience_witness:
  "loop_head (\<lambda>i. body_B fork_env (fixed_draw i)) ep_isTerminal (kw_get (kw_maxItr no_kwargs) 50)
      \<lparr>ep_transs = [], ep_utils = [], ep_freqs = [],
       ep_state = env_getStartingState fork_env, ep_reward = 0,
       ep_actions = env_getActions fork_env (env_getStartingState fork_env),
       ep_rewardEstimate = None, ep_bestAction = None, ep_isTerminal = False, ep_t = 0\<rparr>
      1 fork_second
   \<and> distinct (map fst ([] :: nat freqs))
   \<and> card (fst ` set (ep_freqs fork_second)) = 1
   \<and> ep_bestAction fork_second = Some 1
   \<and> random_choice 0 (env_getActions fork_env (ep_state fork_second)) = Inr 0
   \<and> body_B fork_env \<lparr>rnd_random = 3 / 4, rnd_choice = 0, rnd_nature = 0\<rparr> fork_second
       = observe_update getEstimates fork_env
           \<lparr>rnd_random = 3 / 4, rnd_choice = 0, rnd_nature = 0\<rparr> fork_second 1
   \<and> body_B fork_env \<lparr>rnd_random = 1 / 4, rnd_choice = 0, rnd_nature = 0\<rparr> fork_second
       = observe_update getEstimates fork_env
           \<lparr>rnd_random = 1 / 4, rnd_choice = 0, rnd_nature = 0\<rparr> fork_second 0"
proof -
  let ?ep0 = "\<lparr>ep_transs = [], ep_utils = [], ep_freqs = [],
       ep_state = env_getStartingState fork_env, ep_reward = 0,
       ep_actions = env_getActions fork_env (env_getStartingState fork_env),
       ep_rewardEstimate = None, ep_bestAction = None, ep_isTerminal = False, ep_t = 0\<rparr>
       :: (nat, nat) episode"
  have m: "kw_get (kw_maxItr no_kwargs) 50 = (50::int)" by (simp add: kw_get_def no_kwargs_def)
  have b: "body_B fork_env (fixed_draw 0) ?ep0 = Inr fork_second"
    by (simp add: episode_defs estimate_defs table_defs fork_env_def fork_second_def fixed_draw_def)
  have "loop_head (\<lambda>i. body_B fork_env (fixed_draw i)) ep_isTerminal 50 ?ep0 (0 + 1) fork_second"
    by (rule loop_head.again [OF loop_head.first]) (simp_all add: b, simp add: fork_second_def)
  then have h1: "loop_head (\<lambda>i. body_B fork_env (fixed_draw i)) ep_isTerminal
      (kw_get (kw_maxItr no_kwargs) 50) ?ep0 1 fork_second"
    by (simp add: m)
  have h2: "distinct (map fst ([] :: nat freqs))" by simp
  have c: "card (fst ` set (ep_freqs fork_second)) = 1" by (simp add: fork_second_def)
  have ba: "ep_bestAction fork_second = Some 1" by (simp add: fork_second_def)
  have rc: "random_choice 0 (env_getActions fork_env (ep_state fork_second)) = Inr 0"
    by (simp add: random_choice_def fork_env_def)
  note E = explore_by_experience [OF h1 h2]
  have e1: "body_B fork_env \<lparr>rnd_random = 3 / 4, rnd_choice = 0, rnd_nature = 0\<rparr> fork_second
       = observe_update getEstimates fork_env
           \<lparr>rnd_random = 3 / 4, rnd_choice = 0, rnd_nature = 0\<rparr> fork_second 1"
    using E [of "\<lparr>rnd_random = 3 / 4, rnd_choice = 0, rnd_nature = 0\<rparr>", THEN conjunct1]
    by (simp add: c ba)
  have e2: "body_B fork_env \<lparr>rnd_random = 1 / 4, rnd_choice = 0, rnd_nature = 0\<rparr> fork_second
       = observe_update getEstimates fork_env
           \<lparr>rnd_random = 1 / 4, rnd_choice = 0, rnd_nature = 0\<rparr> fork_second 0"
    using E [of "\<lparr>rnd_random = 1 / 4, rnd_choice = 0, rnd_nature = 0\<rparr>", THEN conjunct1]
    by (simp add: c ba rc)
  from h1 h2 c ba rc e1 e2 show ?thesis by (intro conjI)
qed

section \<open>Executing a policy\<close>

lemma length_replay [simp]: "length (replay env rnd i s acts) = length acts"
  by (induction acts arbitrary: i s) (auto split: prod.splits)

lemma replay_nonempty [simp]: "replay env rnd i s acts = [] \<longleftrightarrow> acts = []"
  by (cases acts) (auto split: prod.splits)

lemma solve_result_one:
  assumes "solve_action env policy (rnd i) s = Inr act"
    and "env_do env (rnd_nature (rnd i)) s act = (s', reward, t)"
    and "energy + reward < - 1000 \<or> t"
  shows "solve_result env policy rnd i s energy [act] (energy + reward)"
  using assms by (auto simp: solve_result_def stops_def)

lemma solve_result_more:
  assumes a: "solve_action env policy (rnd i) s = Inr act"
    and e: "env_do env (rnd_nature (rnd i)) s act = (s', reward, t)"
    and n: "\<not> (energy + reward < - 1000 \<or> t)"
    and r: "solve_result env policy rnd (Suc i) s' (energy + reward) acts tot"
  shows "solve_result env policy rnd i s energy (act # acts) tot"
proof -
  let ?obs = "replay env rnd (Suc i) s' acts"
  from r have ne: "acts \<noteq> []" and f: "follows env policy rnd (Suc i) s' acts"
    and t: "tot = energy + reward + sum_list (map fst ?obs)"
    and s: "stops (energy + reward) ?obs"
    and p: "\<And>k. 0 < k \<Longrightarrow> k < length acts \<Longrightarrow> \<not> stops (energy + reward) (take k ?obs)"
    by (auto simp: solve_result_def)
  have obs: "replay env rnd i s (act # acts) = (reward, t) # ?obs" using e by simp
  have one: "stops energy ((reward, t) # xs) = stops (energy + reward) xs" if "xs \<noteq> []" for xs
    using that by (simp add: stops_def add.assoc)
  have "stops energy ((reward, t) # ?obs)" using s ne by (simp add: one)
  moreover have "\<not> stops energy (take k ((reward, t) # ?obs))"
    if k: "0 < k" "k < length (act # acts)" for k
  proof (cases k)
    case 0
    then show ?thesis using k by simp
  next
    case (Suc j)
    show ?thesis
    proof (cases j)
      case 0
      then show ?thesis using Suc n by (simp add: stops_def)
    next
      case (Suc j')
      then have j: "0 < j" "j < length acts" using k \<open>k = Suc j\<close> by simp_all
      then have "take j ?obs \<noteq> []" using ne by simp
      then show ?thesis using p [OF j] \<open>k = Suc j\<close> by (simp add: one)
    qed
  qed
  ultimately show ?thesis
    unfolding solve_result_def obs using a e f t by simp
qed

lemma solve_loop_result:
  assumes "solve_loop env policy rnd i s actions energy = Some y"
  shows "\<forall>trace tot. y = Inr (trace, tot) \<longrightarrow>
     (\<exists>acts. trace = actions @ acts \<and> solve_result env policy rnd i s energy acts tot)"
proof (rule solve_loop.raw_induct
    [where P = "\<lambda>env policy rnd i s actions energy y. \<forall>trace tot. y = Inr (trace, tot) \<longrightarrow>
       (\<exists>acts. trace = actions @ acts \<and> solve_result env policy rnd i s energy acts tot)",
     rotated, OF assms], goal_cases)
  case (1 solve_loop' env policy rnd i s actions energy y)
  show ?case
  proof (intro allI impI)
    fix trace tot
    assume y: "y = Inr (trace, tot)"
    from "1"(2) y obtain act where a: "solve_action env policy (rnd i) s = Inr act"
      by (cases "solve_action env policy (rnd i) s") auto
    obtain s' reward t where e: "env_do env (rnd_nature (rnd i)) s act = (s', reward, t)"
      by (cases "env_do env (rnd_nature (rnd i)) s act")
    show "\<exists>acts. trace = actions @ acts \<and> solve_result env policy rnd i s energy acts tot"
    proof (cases "energy + reward < - 1000 \<or> t")
      case True
      then have "trace = actions @ [act]" "tot = energy + reward"
        using "1"(2) a e y by auto
      then show ?thesis using solve_result_one [where rnd = rnd and i = i, OF a e True] by blast
    next
      case False
      then have "solve_loop' env policy rnd (Suc i) s' (actions @ [act]) (energy + reward) = Some y"
        using "1"(2) a e by auto
      from "1"(1) [OF this] y obtain acts where
        "trace = (actions @ [act]) @ acts"
        "solve_result env policy rnd (Suc i) s' (energy + reward) acts tot"
        by blast
      then show ?thesis using solve_result_more [where rnd = rnd and i = i, OF a e False] by auto
    qed
  qed
qed

lemma solve_loop_step:
  assumes "solve_action env policy (rnd i) s = Inr act"
    and "env_do env (rnd_nature (rnd i)) s act = (s', reward, t)"
  shows "solve_loop env policy rnd i s actions energy =
     (if energy + reward < - 1000 \<or> t then Some (Inr (actions @ [act], energy + reward))
      else solve_loop env policy rnd (Suc i) s' (actions @ [act]) (energy + reward))"
  using assms by (subst solve_loop.simps) simp

lemma solve_action_cases:
  "map_of policy s = Some act \<Longrightarrow> solve_action env policy d s = Inr act"
  "map_of policy s = None \<Longrightarrow>
     solve_action env policy d s = random_choice (rnd_choice d) (env_getActions env s)"
  by (simp_all add: solve_action_def)

lemma random_choice_legal: "random_choice k xs = Inr a \<Longrightarrow> a \<in> set xs"
  by (auto simp: random_choice_def split: if_splits)

lemma random_choice_nonempty: "xs \<noteq> [] \<Longrightarrow> \<exists>a. random_choice k xs = Inr a"
  by (simp add: random_choice_def)

lemma solve_action_some:
  assumes "map_of policy s \<noteq> None \<or> env_getActions env s \<noteq> []"
  shows "\<exists>act. solve_action env policy d s = Inr act"
  using assms by (cases "map_of policy s") (auto simp: solve_action_def random_choice_def)

lemma solve_ruin:
  assumes "\<forall>c s a. snd (env_do env c s a) = (- 2000, False)"
    and "map_of policy (env_getStartingState env) \<noteq> None
         \<or> env_getActions env (env_getStartingState env) \<noteq> []"
  shows "\<exists>act. solve env policy rnd = Some (Inr ([act], - 2000))"
proof -
  obtain act where a: "solve_action env policy (rnd 0) (env_getStartingState env) = Inr act"
    using solve_action_some [OF assms(2)] by blast
  obtain s' where e: "env_do env (rnd_nature (rnd 0)) (env_getStartingState env) act
      = (s', - 2000, False)"
    using assms(1) by (metis prod.collapse)
  have "solve env policy rnd = Some (Inr ([act], - 2000))"
    unfolding solve_def by (subst solve_loop_step [where rnd = rnd and i = 0, OF a e]) simp
  then show ?thesis by blast
qed

lemma stops_Cons:
  "xs \<noteq> [] \<Longrightarrow> stops energy ((reward, t) # xs) = stops (energy + reward) xs"
  by (simp add: stops_def add.assoc)

lemma solve_result_returns:
  "solve_result env policy rnd i s energy acts tot \<Longrightarrow>
   solve_loop env policy rnd i s actions energy = Some (Inr (actions @ acts, tot))"
proof (induction acts arbitrary: i s energy actions)
  case Nil
  then show ?case by (simp add: solve_result_def)
next
  case (Cons a rest)
  obtain s' reward t where e: "env_do env (rnd_nature (rnd i)) s a = (s', reward, t)"
    by (cases "env_do env (rnd_nature (rnd i)) s a")
  let ?obs = "replay env rnd (Suc i) s' rest"
  have obs: "replay env rnd i s (a # rest) = (reward, t) # ?obs" using e by simp
  from Cons.prems have act: "solve_action env policy (rnd i) s = Inr a"
    and f: "follows env policy rnd (Suc i) s' rest"
    and tot: "tot = energy + reward + sum_list (map fst ?obs)"
    and st: "stops energy ((reward, t) # ?obs)"
    and pre: "\<And>k. 0 < k \<Longrightarrow> k < Suc (length rest) \<Longrightarrow>
        \<not> stops energy (take k ((reward, t) # ?obs))"
    unfolding solve_result_def obs using e by auto
  note step = solve_loop_step [where rnd = rnd and i = i, OF act e]
  show ?case
  proof (cases "rest = []")
    case True
    then have "energy + reward < - 1000 \<or> t" "tot = energy + reward"
      using st tot by (simp_all add: stops_def)
    then show ?thesis using True by (simp add: step)
  next
    case False
    have "\<not> stops energy (take 1 ((reward, t) # ?obs))"
      using pre [of 1] False by simp
    then have n: "\<not> (energy + reward < - 1000 \<or> t)" by (simp add: stops_def)
    have "\<not> stops (energy + reward) (take k ?obs)" if k: "0 < k" "k < length rest" for k
    proof -
      have "take k ?obs \<noteq> []" using k False by simp
      then show ?thesis using pre [of "Suc k"] k by (simp add: stops_Cons)
    qed
    moreover have "stops (energy + reward) ?obs" using st False by (simp add: stops_Cons)
    ultimately have "solve_result env policy rnd (Suc i) s' (energy + reward) rest tot"
      using False f tot by (simp add: solve_result_def)
    then have "solve_loop env policy rnd (Suc i) s' (actions @ [a]) (energy + reward)
        = Some (Inr ((actions @ [a]) @ rest, tot))"
      by (rule Cons.IH)
    then show ?thesis using n by (simp add: step)
  qed
qed

lemma solve_iff:
  "solve env policy rnd = Some (Inr (trace, tot)) \<longleftrightarrow>
   solve_result env policy rnd 0 (env_getStartingState env) 0 trace tot"
proof
  assume "solve env policy rnd = Some (Inr (trace, tot))"
  then show "solve_result env policy rnd 0 (env_getStartingState env) 0 trace tot"
    using solve_loop_result [of env policy rnd 0 "env_getStartingState env" "[]" 0]
    by (simp add: solve_def)
next
  assume "solve_result env policy rnd 0 (env_getStartingState env) 0 trace tot"
  then show "solve env policy rnd = Some (Inr (trace, tot))"
    using solve_result_returns [of env policy rnd 0 "env_getStartingState env" 0 trace tot "[]"]
    by (simp add: solve_def)
qed

lemma toll_result:
  "solve_result toll_env [] fixed_draw 0 (env_getStartingState toll_env) 0 [0, 0] (- 1200)"
  by (auto simp: solve_result_def stops_def solve_action_def random_choice_def toll_env_def
      fixed_draw_def less_Suc_eq numeral_2_eq_2)

text \<open>
  C7. In every state \<open>solve\<close> takes the action of the policy, and \<^verbatim>\<open>random.choice\<close>
  of the legal actions when the state has no entry. It returns a trace and a total
  exactly when executing the trace, each action chosen in this way, comes after its last
  action, and after no earlier one, to a step at which the environment signals
  termination or the accumulated reward is below \<open>-1000\<close>; the total is the sum of
  the rewards of the trace. On an environment that pays \<open>-2000\<close> for every step and
  never terminates, with an action to take in the starting state, \<open>solve\<close> returns
  after one step, which is within 500 steps.
\<close>

theorem solve_follows_policy_and_aborts:
  "(map_of policy s = Some act \<longrightarrow> solve_action env policy d s = Inr act)
   \<and> (map_of policy s = None \<longrightarrow>
        solve_action env policy d s = random_choice (rnd_choice d) (env_getActions env s)
        \<and> (\<forall>a. solve_action env policy d s = Inr a \<longrightarrow> a \<in> set (env_getActions env s)))
   \<and> (solve env policy rnd = Some (Inr (trace, tot)) \<longleftrightarrow>
        solve_result env policy rnd 0 (env_getStartingState env) 0 trace tot)
   \<and> ((\<forall>c s a. snd (env_do env c s a) = (- 2000, False)) \<longrightarrow>
        (map_of policy (env_getStartingState env) \<noteq> None
           \<or> env_getActions env (env_getStartingState env) \<noteq> []) \<longrightarrow>
        (\<exists>a. solve env policy rnd = Some (Inr ([a], - 2000)) \<and> length [a] \<le> 500))"
proof -
  have 1: "map_of policy s = Some act \<longrightarrow> solve_action env policy d s = Inr act"
    by (simp add: solve_action_cases)
  have 2: "map_of policy s = None \<longrightarrow>
        solve_action env policy d s = random_choice (rnd_choice d) (env_getActions env s)
        \<and> (\<forall>a. solve_action env policy d s = Inr a \<longrightarrow> a \<in> set (env_getActions env s))"
    by (auto simp: solve_action_cases dest: random_choice_legal)
  have 3: "solve env policy rnd = Some (Inr (trace, tot)) \<longleftrightarrow>
        solve_result env policy rnd 0 (env_getStartingState env) 0 trace tot"
    by (rule solve_iff)
  have 4: "(\<forall>c s a. snd (env_do env c s a) = (- 2000, False)) \<longrightarrow>
        (map_of policy (env_getStartingState env) \<noteq> None
           \<or> env_getActions env (env_getStartingState env) \<noteq> []) \<longrightarrow>
        (\<exists>a. solve env policy rnd = Some (Inr ([a], - 2000)) \<and> length [a] \<le> 500)"
    using solve_ruin [of env policy rnd] by simp
  from 1 2 3 4 show ?thesis by (intro conjI)
qed

theorem solve_follows_policy_and_aborts_witness:
  "map_of [(0::nat, 0::nat)] 0 = Some 0
   \<and> solve_action ruin_env [(0, 0)] (fixed_draw 0) 0 = Inr 0
   \<and> map_of ([] :: (nat, nat) dict) 0 = None
   \<and> solve_action ruin_env [] (fixed_draw 0) 0 = Inr 0
   \<and> (\<forall>c s a. snd (env_do ruin_env c s a) = (- 2000, False))
   \<and> env_getActions ruin_env (env_getStartingState ruin_env) \<noteq> []
   \<and> solve ruin_env [] fixed_draw = Some (Inr ([0], - 2000))
   \<and> solve_result ruin_env [] fixed_draw 0 (env_getStartingState ruin_env) 0 [0] (- 2000)
   \<and> solve_result toll_env [] fixed_draw 0 (env_getStartingState toll_env) 0 [0, 0] (- 1200)
   \<and> solve toll_env [] fixed_draw = Some (Inr ([0, 0], - 1200))"
proof -
  have h1: "map_of [(0::nat, 0::nat)] 0 = Some 0" by simp
  have h2: "map_of ([] :: (nat, nat) dict) 0 = None" by simp
  have h3: "\<forall>c s a. snd (env_do ruin_env c s a) = (- 2000, False)"
    by (simp add: ruin_env_def)
  have h4: "env_getActions ruin_env (env_getStartingState ruin_env) \<noteq> []"
    by (simp add: ruin_env_def)
  have h5: "solve ruin_env [] fixed_draw = Some (Inr ([0], - 2000))"
    unfolding solve_def
    by (subst solve_loop.simps)
       (simp add: solve_action_def random_choice_def ruin_env_def fixed_draw_def)
  have a: "solve_action ruin_env [] (fixed_draw 0) 0 = Inr 0"
    by (simp add: solve_action_def random_choice_def ruin_env_def fixed_draw_def)
  note T = solve_follows_policy_and_aborts
  have h6: "solve toll_env [] fixed_draw = Some (Inr ([0, 0], - 1200))"
    using T [where env = toll_env and policy = "[]" and rnd = fixed_draw and trace = "[0, 0]"
        and tot = "- 1200"] toll_result
    by blast
  show ?thesis
    using T [where policy = "[(0::nat, 0::nat)]" and s = 0 and act = 0 and env = ruin_env
        and d = "fixed_draw 0" and rnd = fixed_draw and trace = "[0]" and tot = "- 2000"]
      T [where policy = "[] :: (nat, nat) dict" and s = 0 and act = 0 and env = ruin_env
        and d = "fixed_draw 0" and rnd = fixed_draw and trace = "[0]" and tot = "- 2000"]
      h1 h2 h3 h4 h5 h6 a toll_result
    by simp
qed

section \<open>Episodes that return\<close>


























end
